theory Spec2Isabelle
  imports Main
begin

section \<open>Values of \<^verbatim>\<open>std::ptrdiff_t\<close>\<close>

text \<open>
  The counter, the template parameter \<^verbatim>\<open>LeastMaxValue\<close> and the argument of
  \<^verbatim>\<open>release\<close> are \<^verbatim>\<open>std::ptrdiff_t\<close>: a signed 64-bit integer on the LP64
  platforms the header is built for. Signed overflow is undefined behaviour in C++, so the
  arithmetic is checked: \<open>None\<close> stands for an overflow.
\<close>

definition PTRDIFF_MIN :: int where
  "PTRDIFF_MIN = - (2 ^ 63)"

definition PTRDIFF_MAX :: int where
  "PTRDIFF_MAX = 2 ^ 63 - 1"

definition ptrdiff :: "int \<Rightarrow> bool" where
  "ptrdiff v = (PTRDIFF_MIN \<le> v \<and> v \<le> PTRDIFF_MAX)"

definition add_ptrdiff :: "int \<Rightarrow> int \<Rightarrow> int option" where
  "add_ptrdiff a b = (if ptrdiff (a + b) then Some (a + b) else None)"

definition sub_ptrdiff :: "int \<Rightarrow> int \<Rightarrow> int option" where
  "sub_ptrdiff a b = (if ptrdiff (a - b) then Some (a - b) else None)"

text \<open>
  A time point or a duration of \<^verbatim>\<open>std::chrono::steady_clock\<close> is a count of clock ticks in
  a signed 64-bit representation; adding a duration to a time point is a signed addition
  too.
\<close>

definition clock_rep :: "int \<Rightarrow> bool" where
  "clock_rep t = (- (2 ^ 63) \<le> t \<and> t < 2 ^ 63)"

definition add_ticks :: "int \<Rightarrow> int \<Rightarrow> int option" where
  "add_ticks t d = (if clock_rep (t + d) then Some (t + d) else None)"

text \<open>
  \<^verbatim>\<open>std::clamp(v, lo, hi)\<close> returns \<open>lo\<close> if \<open>v < lo\<close>, \<open>hi\<close> if \<open>hi < v\<close>, otherwise
  \<open>v\<close>; the standard requires that \<open>lo\<close> is no greater than \<open>hi\<close> and leaves the
  behaviour undefined otherwise (\<open>None\<close>).
\<close>

definition clamp :: "int \<Rightarrow> int \<Rightarrow> int \<Rightarrow> int option" where
  "clamp v lo hi =
     (if hi < lo then None
      else Some (if v < lo then lo else if hi < v then hi else v))"

section \<open>The semaphore and the calling thread\<close>

text \<open>
  The three private members of \<^verbatim>\<open>counting_semaphore\<close>. The mutex is \<open>True\<close> while some
  thread holds it; the condition variable is the number of threads blocked in a wait on it.
\<close>

record semaphore =
  m_count :: int
  m_cv :: nat
  m_lock :: bool

text \<open>
  An operation runs in one thread. Whenever that thread is suspended (waiting for the mutex,
  or inside a wait on the condition variable) the other threads run; the thread resumes
  holding the mutex. A \<open>wake\<close> describes one such resumption: the time that passed, the
  updates \<open>u\<close> that other threads made meanwhile, in order, and the number of threads then
  blocked on the condition variable. Since \<^verbatim>\<open>m_count\<close> is private, another thread changes it
  only through the assignments of this class, all of the form
  \<^verbatim>\<open>m_count = std::clamp(m_count + u, 0, LeastMaxValue)\<close>.
  A \<open>thread\<close> is the reading of the clock and the resumptions still to come; with none
  left, no other thread does anything any more: a thread waiting for the mutex or for a
  notification then stays blocked, and a timed wait ends by its timeout alone. Time is
  counted in ticks of the clock; the clock never runs backwards. The calling thread does
  not hold \<^verbatim>\<open>m_lock\<close> when it calls an operation: the mutex is private, and every
  operation that returns has unlocked it.
\<close>

record wake =
  elapsed :: nat
  others :: "int list"
  waiting :: nat

record thread =
  now :: int
  wakes :: "wake list"

datatype error = operation_not_permitted | resource_deadlock_would_occur

datatype cv_status = no_timeout | timeout

text \<open>
  What a call does: it returns a value to its thread, leaves the thread blocked, leaves by
  an exception (\<^verbatim>\<open>std::system_error\<close> with the given code), ends the program through
  \<^verbatim>\<open>std::terminate\<close>, or has undefined behaviour.
\<close>

datatype 'a outcome =
    Returned 'a thread semaphore
  | Blocked semaphore
  | Thrown error
  | Terminated
  | Undefined

type_synonym 'a action = "thread \<Rightarrow> semaphore \<Rightarrow> 'a outcome"

definition return :: "'a \<Rightarrow> 'a action" where
  "return x th s = Returned x th s"

definition throw :: "error \<Rightarrow> 'a action" where
  "throw e th s = Thrown e"

text \<open>One statement after another: the second runs only if the first returns.\<close>

definition seq :: "'a action \<Rightarrow> ('a \<Rightarrow> 'b action) \<Rightarrow> 'b action" where
  "seq m f th s =
     (case m th s of
        Returned x th' s' \<Rightarrow> f x th' s'
      | Blocked s' \<Rightarrow> Blocked s'
      | Thrown e \<Rightarrow> Thrown e
      | Terminated \<Rightarrow> Terminated
      | Undefined \<Rightarrow> Undefined)"

text \<open>A function declared \<^verbatim>\<open>noexcept\<close>: an exception that leaves it calls \<^verbatim>\<open>std::terminate\<close>.\<close>

definition noexcept :: "'a action \<Rightarrow> 'a action" where
  "noexcept m th s =
     (case m th s of
        Thrown e \<Rightarrow> Terminated
      | r \<Rightarrow> r)"

section \<open>The counter\<close>

text \<open>The lambda \<^verbatim>\<open>[&] { return (m_count > 0); }\<close> of the three waits.\<close>

definition count_positive :: "semaphore \<Rightarrow> bool" where
  "count_positive s = (0 < m_count s)"

text \<open>\<^verbatim>\<open>m_count = std::clamp(m_count + update, std::ptrdiff_t{0}, LeastMaxValue)\<close>\<close>

definition add_count :: "int \<Rightarrow> int \<Rightarrow> int \<Rightarrow> int option" where
  "add_count L c update =
     (case add_ptrdiff c update of
        None \<Rightarrow> None
      | Some v \<Rightarrow> clamp v 0 L)"

text \<open>\<^verbatim>\<open>m_count = std::clamp(m_count - 1, std::ptrdiff_t{0}, LeastMaxValue)\<close>\<close>

definition decrement_count :: "int \<Rightarrow> int \<Rightarrow> int option" where
  "decrement_count L c =
     (case sub_ptrdiff c 1 of
        None \<Rightarrow> None
      | Some v \<Rightarrow> clamp v 0 L)"

definition assign_count :: "int option \<Rightarrow> unit action" where
  "assign_count v th s =
     (case v of
        None \<Rightarrow> Undefined
      | Some c \<Rightarrow> Returned () th (s\<lparr>m_count := c\<rparr>))"

text \<open>The updates of the other threads while this one is suspended.\<close>

fun others_update :: "int \<Rightarrow> int list \<Rightarrow> int \<Rightarrow> int option" where
  "others_update L [] c = Some c"
| "others_update L (u # us) c =
     (case add_count L c u of
        None \<Rightarrow> None
      | Some c' \<Rightarrow> others_update L us c')"

section \<open>Mutex, lock and condition variable\<close>

text \<open>
  The thread is suspended: it stays blocked if no resumption is left, and otherwise resumes
  holding the mutex, after the other threads' updates.
\<close>

definition suspend :: "int \<Rightarrow> unit action" where
  "suspend L th s =
     (case wakes th of
        [] \<Rightarrow> Blocked s
      | w # ws \<Rightarrow>
          (case others_update L (others w) (m_count s) of
             None \<Rightarrow> Undefined
           | Some c \<Rightarrow>
               Returned () (th\<lparr>now := now th + int (elapsed w), wakes := ws\<rparr>)
                 (s\<lparr>m_count := c, m_cv := waiting w, m_lock := True\<rparr>)))"

text \<open>\<^verbatim>\<open>std::mutex::lock\<close>, \<^verbatim>\<open>unlock\<close>\<close>

definition mutex_lock :: "int \<Rightarrow> unit action" where
  "mutex_lock L th s =
     (if m_lock s then suspend L th s
      else Returned () th (s\<lparr>m_lock := True\<rparr>))"

definition mutex_unlock :: "unit action" where
  "mutex_unlock th s = Returned () th (s\<lparr>m_lock := False\<rparr>)"

text \<open>
  \<^verbatim>\<open>std::unique_lock<std::mutex>\<close> on \<^verbatim>\<open>m_lock\<close>: whether it owns the mutex.
  The constructor taking the mutex locks it. \<^verbatim>\<open>try_lock\<close> and \<^verbatim>\<open>unlock\<close> throw
  \<^verbatim>\<open>std::system_error\<close>: \<^verbatim>\<open>try_lock\<close> with \<^verbatim>\<open>resource_deadlock_would_occur\<close> if the lock
  already owns the mutex, \<^verbatim>\<open>unlock\<close> with \<^verbatim>\<open>operation_not_permitted\<close> if it does not.
  The destructor unlocks the mutex if the lock owns it.
\<close>

record unique_lock =
  owns :: bool

definition unique_lock_ctor :: "int \<Rightarrow> unique_lock action" where
  "unique_lock_ctor L = seq (mutex_lock L) (\<lambda>_. return \<lparr>owns = True\<rparr>)"

definition unique_lock_try_lock :: "unique_lock \<Rightarrow> (bool \<times> unique_lock) action" where
  "unique_lock_try_lock lock th s =
     (if owns lock then Thrown resource_deadlock_would_occur
      else if m_lock s then Returned (False, lock) th s
      else Returned (True, lock\<lparr>owns := True\<rparr>) th (s\<lparr>m_lock := True\<rparr>))"

definition unique_lock_unlock :: "unique_lock \<Rightarrow> unique_lock action" where
  "unique_lock_unlock lock =
     (if \<not> owns lock then throw operation_not_permitted
      else seq mutex_unlock (\<lambda>_. return (lock\<lparr>owns := False\<rparr>)))"

definition unique_lock_dtor :: "unique_lock \<Rightarrow> unit action" where
  "unique_lock_dtor lock = (if owns lock then mutex_unlock else return ())"

text \<open>
  \<^verbatim>\<open>std::condition_variable\<close>. \<^verbatim>\<open>notify_all\<close> unblocks every thread waiting on it.
  \<^verbatim>\<open>wait(lock)\<close> unlocks the mutex and blocks, and locks the mutex again when unblocked
  (by a notification or spuriously); the lock must own the mutex.
\<close>

definition notify_all :: "unit action" where
  "notify_all th s = Returned () th (s\<lparr>m_cv := 0\<rparr>)"

definition cv_wait :: "int \<Rightarrow> unique_lock \<Rightarrow> unit action" where
  "cv_wait L lock th s =
     (if \<not> owns lock then Undefined
      else suspend L th (s\<lparr>m_cv := m_cv s + 1, m_lock := False\<rparr>))"

text \<open>
  \<^verbatim>\<open>wait_until(lock, abs_time)\<close> is also unblocked by the clock: the thread is suspended
  until the other threads let it resume, but no longer than until \<open>abs_time\<close>, and not at
  all if \<open>abs_time\<close> has passed. It needs no other thread to return: with no resumption
  listed it returns at \<open>abs_time\<close>. The mutex is dropped and taken again in every case, so
  the updates the other threads make meanwhile apply. Taking the mutex again after the
  timeout is not counted as time: no operation of this class blocks while it holds the
  mutex. The wait reports whether the clock has reached \<open>abs_time\<close>.
\<close>

definition suspend_until :: "int \<Rightarrow> int \<Rightarrow> unit action" where
  "suspend_until L abs_time th s =
     (case wakes th of
        [] \<Rightarrow>
          Returned () (th\<lparr>now := max (now th) abs_time\<rparr>)
            (s\<lparr>m_cv := m_cv s - 1, m_lock := True\<rparr>)
      | w # ws \<Rightarrow>
          (case others_update L (others w) (m_count s) of
             None \<Rightarrow> Undefined
           | Some c \<Rightarrow>
               Returned ()
                 (th\<lparr>now := min (now th + int (elapsed w)) (max (now th) abs_time),
                     wakes := ws\<rparr>)
                 (s\<lparr>m_count := c, m_cv := waiting w, m_lock := True\<rparr>)))"

definition cv_wait_until :: "int \<Rightarrow> unique_lock \<Rightarrow> int \<Rightarrow> cv_status action" where
  "cv_wait_until L lock abs_time th s =
     (if \<not> owns lock then Undefined
      else seq (suspend_until L abs_time)
             (\<lambda>_ th s. Returned (if now th < abs_time then no_timeout else timeout) th s)
             th (s\<lparr>m_cv := m_cv s + 1, m_lock := False\<rparr>))"

text \<open>\<^verbatim>\<open>wait(lock, pred)\<close>: \<^verbatim>\<open>while (!pred()) wait(lock);\<close>\<close>

function cv_wait_pred :: "int \<Rightarrow> unique_lock \<Rightarrow> (semaphore \<Rightarrow> bool) \<Rightarrow> unit action" where
  "cv_wait_pred L lock pred th s =
     (if pred s then Returned () th s
      else (case cv_wait L lock th s of
              Returned _ th' s' \<Rightarrow> cv_wait_pred L lock pred th' s'
            | Blocked s' \<Rightarrow> Blocked s'
            | Thrown e \<Rightarrow> Thrown e
            | Terminated \<Rightarrow> Terminated
            | Undefined \<Rightarrow> Undefined))"
  by pat_completeness auto
termination
  by (relation "measure (\<lambda>(L, lock, pred, th, s). length (wakes th))")
     (auto simp: cv_wait_def suspend_def split: if_splits list.splits option.splits)

declare cv_wait_pred.simps [simp del]

text \<open>
  \<^verbatim>\<open>wait_until(lock, abs_time, pred)\<close>:
  \<^verbatim>\<open>while (!pred()) if (wait_until(lock, abs_time) == cv_status::timeout) return pred();
  return true;\<close>
\<close>

function cv_wait_until_pred ::
  "int \<Rightarrow> unique_lock \<Rightarrow> int \<Rightarrow> (semaphore \<Rightarrow> bool) \<Rightarrow> bool action" where
  "cv_wait_until_pred L lock abs_time pred th s =
     (if pred s then Returned True th s
      else (case cv_wait_until L lock abs_time th s of
              Returned status th' s' \<Rightarrow>
                if status = timeout then Returned (pred s') th' s'
                else cv_wait_until_pred L lock abs_time pred th' s'
            | Blocked s' \<Rightarrow> Blocked s'
            | Thrown e \<Rightarrow> Thrown e
            | Terminated \<Rightarrow> Terminated
            | Undefined \<Rightarrow> Undefined))"
  by pat_completeness auto
termination
  by (relation "measure (\<lambda>(L, lock, abs_time, pred, th, s). length (wakes th))")
     (auto simp: cv_wait_until_def seq_def suspend_until_def
        split: if_splits list.splits option.splits outcome.splits)

declare cv_wait_until_pred.simps [simp del]

text \<open>
  \<^verbatim>\<open>wait_for(lock, rel_time, pred)\<close>:
  \<^verbatim>\<open>return wait_until(lock, std::chrono::steady_clock::now() + rel_time, std::move(pred));\<close>
  The duration is taken in ticks of the clock. The sum is a signed 64-bit addition: for a
  duration so long that it overflows, the behaviour is undefined.
\<close>

definition cv_wait_for_pred ::
  "int \<Rightarrow> unique_lock \<Rightarrow> int \<Rightarrow> (semaphore \<Rightarrow> bool) \<Rightarrow> bool action" where
  "cv_wait_for_pred L lock rel_time pred th s =
     (case add_ticks (now th) rel_time of
        None \<Rightarrow> Undefined
      | Some abs_time \<Rightarrow> cv_wait_until_pred L lock abs_time pred th s)"

section \<open>\<^verbatim>\<open>counting_semaphore<LeastMaxValue>\<close>\<close>

text \<open>The constructor: \<^verbatim>\<open>m_count(desired)\<close>, a fresh condition variable and mutex.\<close>

definition counting_semaphore :: "int \<Rightarrow> semaphore" where
  "counting_semaphore desired = \<lparr>m_count = desired, m_cv = 0, m_lock = False\<rparr>"

definition release :: "int \<Rightarrow> int \<Rightarrow> unit action" where
  "release L update =
     seq (unique_lock_ctor L) (\<lambda>lock.
     seq (\<lambda>th s. assign_count (add_count L (m_count s) update) th s) (\<lambda>_.
     seq notify_all (\<lambda>_.
     seq (unique_lock_unlock lock) (\<lambda>lock.
     unique_lock_dtor lock))))"

definition acquire :: "int \<Rightarrow> unit action" where
  "acquire L =
     seq (unique_lock_ctor L) (\<lambda>lock.
     seq (cv_wait_pred L lock count_positive) (\<lambda>_.
     seq (\<lambda>th s. assign_count (decrement_count L (m_count s)) th s) (\<lambda>_.
     seq notify_all (\<lambda>_.
     seq (unique_lock_unlock lock) (\<lambda>lock.
     unique_lock_dtor lock)))))"

definition try_acquire :: "int \<Rightarrow> bool action" where
  "try_acquire L =
     noexcept
      (seq (unique_lock_ctor L) (\<lambda>lock.
       seq (unique_lock_try_lock lock) (\<lambda>(locked, lock).
         if locked then
           seq (\<lambda>th s. assign_count (decrement_count L (m_count s)) th s) (\<lambda>_.
           seq (unique_lock_unlock lock) (\<lambda>lock.
           seq (unique_lock_dtor lock) (\<lambda>_.
           return True)))
         else
           seq (unique_lock_dtor lock) (\<lambda>_.
           return False))))"

definition try_acquire_for :: "int \<Rightarrow> int \<Rightarrow> bool action" where
  "try_acquire_for L rel_time =
     seq (unique_lock_ctor L) (\<lambda>lock.
     seq (cv_wait_for_pred L lock rel_time count_positive) (\<lambda>ok.
       if ok then
         seq (\<lambda>th s. assign_count (decrement_count L (m_count s)) th s) (\<lambda>_.
         seq (unique_lock_dtor lock) (\<lambda>_.
         return True))
       else
         seq (unique_lock_dtor lock) (\<lambda>_.
         return False)))"

definition try_acquire_until :: "int \<Rightarrow> int \<Rightarrow> bool action" where
  "try_acquire_until L abs_time =
     seq (unique_lock_ctor L) (\<lambda>lock.
     seq (cv_wait_until_pred L lock abs_time count_positive) (\<lambda>ok.
       if ok then
         seq (\<lambda>th s. assign_count (decrement_count L (m_count s)) th s) (\<lambda>_.
         seq (unique_lock_dtor lock) (\<lambda>_.
         return True))
       else
         seq (unique_lock_dtor lock) (\<lambda>_.
         return False)))"

text \<open>\<^verbatim>\<open>max()\<close>, declared \<^verbatim>\<open>noexcept\<close>, returns the template parameter.\<close>

definition max_value :: "int \<Rightarrow> int action" where
  "max_value L = noexcept (return L)"

text \<open>\<^verbatim>\<open>using binary_semaphore = counting_semaphore<1>;\<close>\<close>

definition binary_semaphore_LeastMaxValue :: int where
  "binary_semaphore_LeastMaxValue = 1"

section \<open>Calls in sequence\<close>

text \<open>The counter lies between 0 and the bound.\<close>

definition in_bounds :: "int \<Rightarrow> semaphore \<Rightarrow> bool" where
  "in_bounds L s = (0 \<le> m_count s \<and> m_count s \<le> L)"

text \<open>
  A call of one of the five operations, its result dropped; and the states in which a
  sequence of calls, each made by a thread of its own, leaves the semaphore: the state after
  each call, up to the first call that does not return.
\<close>

datatype call =
    Release int
  | Acquire
  | Try_acquire
  | Try_acquire_for int
  | Try_acquire_until int

fun invoke :: "int \<Rightarrow> call \<Rightarrow> unit action" where
  "invoke L (Release update) = release L update"
| "invoke L Acquire = acquire L"
| "invoke L Try_acquire = seq (try_acquire L) (\<lambda>_. return ())"
| "invoke L (Try_acquire_for rel_time) = seq (try_acquire_for L rel_time) (\<lambda>_. return ())"
| "invoke L (Try_acquire_until abs_time) = seq (try_acquire_until L abs_time) (\<lambda>_. return ())"

fun states_after :: "int \<Rightarrow> (thread \<times> call) list \<Rightarrow> semaphore \<Rightarrow> semaphore list" where
  "states_after L [] s = []"
| "states_after L ((th, c) # cs) s =
     (case invoke L c th s of
        Returned _ _ s' \<Rightarrow> s' # states_after L cs s'
      | _ \<Rightarrow> [])"

text \<open>
  The calls of a sequence that are made, each with its outcome: all up to and with the first
  call that does not return.
\<close>

fun outcomes ::
  "int \<Rightarrow> (thread \<times> call) list \<Rightarrow> semaphore \<Rightarrow> (call \<times> unit outcome) list" where
  "outcomes L [] s = []"
| "outcomes L ((th, c) # cs) s =
     (case invoke L c th s of
        Returned x th' s' \<Rightarrow> (c, Returned x th' s') # outcomes L cs s'
      | r \<Rightarrow> [(c, r)])"

text \<open>
  No signed addition of a call overflows, whatever counter in \<open>[0, LeastMaxValue]\<close> it
  meets: the update of a \<^verbatim>\<open>release\<close>, by the caller or by another thread while the caller
  is suspended, and the deadline of a \<^verbatim>\<open>try_acquire_for\<close>, whenever the caller may compute
  it.
\<close>

definition update_fits :: "int \<Rightarrow> int \<Rightarrow> bool" where
  "update_fits L u = (PTRDIFF_MIN \<le> u \<and> L + u \<le> PTRDIFF_MAX)"

definition thread_fits :: "int \<Rightarrow> thread \<Rightarrow> bool" where
  "thread_fits L th = list_all (\<lambda>w. list_all (update_fits L) (others w)) (wakes th)"

fun call_fits :: "int \<Rightarrow> thread \<times> call \<Rightarrow> bool" where
  "call_fits L (th, Release update) = (thread_fits L th \<and> update_fits L update)"
| "call_fits L (th, Try_acquire_for rel_time) =
     (thread_fits L th \<and> clock_rep (now th + rel_time) \<and>
      clock_rep (now th + int (sum_list (map elapsed (wakes th))) + rel_time))"
| "call_fits L (th, c) = thread_fits L th"

text \<open>
  An outcome that is neither undefined behaviour nor an exception, that is
  \<^verbatim>\<open>std::terminate\<close> only where that is expected, and that leaves the counter within its
  bounds, also when it leaves the caller blocked.
\<close>

fun sound :: "int \<Rightarrow> bool \<Rightarrow> 'a outcome \<Rightarrow> bool" where
  "sound L terminates (Returned x th s) = (in_bounds L s \<and> thread_fits L th)"
| "sound L terminates (Blocked s) = in_bounds L s"
| "sound L terminates Terminated = terminates"
| "sound L terminates (Thrown e) = False"
| "sound L terminates Undefined = False"

text \<open>
  What a schedule shows a thread that holds the mutex at time \<open>t\<close> with the counter at
  \<open>c\<close>: the counter after its first \<open>k\<close> resumptions and the time of the \<open>k\<close>-th. A
  timed wait with deadline \<open>d\<close> looks at the counter when it starts (look 0) and after
  each resumption. Look \<open>k\<close> is the first to find a permit if the counter is positive then,
  was not at any earlier look, and every earlier resumption came before the deadline; the
  \<open>k\<close>-th itself may come at the deadline or after it.
\<close>

definition count_seen :: "int \<Rightarrow> int \<Rightarrow> wake list \<Rightarrow> nat \<Rightarrow> int option" where
  "count_seen L c ws k = others_update L (concat (map others (take k ws))) c"

definition clock_seen :: "int \<Rightarrow> wake list \<Rightarrow> nat \<Rightarrow> int" where
  "clock_seen t ws k = t + int (sum_list (map elapsed (take k ws)))"

definition no_permit_before ::
  "int \<Rightarrow> int \<Rightarrow> int \<Rightarrow> int \<Rightarrow> wake list \<Rightarrow> nat \<Rightarrow> bool" where
  "no_permit_before L d t c ws k =
     (list_all (\<lambda>j. case count_seen L c ws j of None \<Rightarrow> False | Some cj \<Rightarrow> cj \<le> 0) [0..<k] \<and>
      list_all (\<lambda>j. clock_seen t ws j < d) [1..<k])"

definition first_permit :: "int \<Rightarrow> int \<Rightarrow> int \<Rightarrow> int \<Rightarrow> wake list \<Rightarrow> nat \<Rightarrow> bool" where
  "first_permit L d t c ws k =
     (k \<le> length ws \<and>
      (case count_seen L c ws k of None \<Rightarrow> False | Some ck \<Rightarrow> 0 < ck) \<and>
      no_permit_before L d t c ws k)"

text \<open>The call ended in an exception or in \<^verbatim>\<open>std::terminate\<close>.\<close>

fun failed :: "'a outcome \<Rightarrow> bool" where
  "failed (Thrown e) = True"
| "failed Terminated = True"
| "failed _ = False"

text \<open>
  Between two points of a call the counter has changed only through the updates that other
  threads made while the calling thread was suspended.
\<close>

definition others_only :: "int \<Rightarrow> thread \<Rightarrow> semaphore \<Rightarrow> thread \<Rightarrow> semaphore \<Rightarrow> bool" where
  "others_only L th s th' s' =
     (\<exists>used. wakes th = used @ wakes th' \<and>
        others_update L (concat (map others used)) (m_count s) = Some (m_count s'))"

section \<open>Running a call on given values\<close>

text \<open>The definitions a run on concrete values unfolds.\<close>

lemmas run_defs =
  counting_semaphore_def release_def acquire_def try_acquire_for_def try_acquire_until_def
  seq_def unique_lock_ctor_def mutex_lock_def return_def add_count_def decrement_count_def
  add_ptrdiff_def sub_ptrdiff_def ptrdiff_def PTRDIFF_MAX_def PTRDIFF_MIN_def assign_count_def
  clamp_def notify_all_def unique_lock_unlock_def mutex_unlock_def unique_lock_dtor_def
  cv_wait_pred.simps cv_wait_until_pred.simps cv_wait_for_pred_def cv_wait_until_def cv_wait_def
  suspend_def suspend_until_def add_ticks_def clock_rep_def count_positive_def

section \<open>Statements run one after another\<close>

lemma seq_Returned:
  "seq m f th s = Returned y th2 s2 \<longleftrightarrow>
     (\<exists>x th1 s1. m th s = Returned x th1 s1 \<and> f x th1 s1 = Returned y th2 s2)"
  by (simp add: seq_def split: outcome.splits)

lemma seq_after:
  "m th s = Returned x th1 s1 \<Longrightarrow> seq m f th s = f x th1 s1"
  by (simp add: seq_def)

section \<open>Taking the mutex\<close>

lemma unique_lock_ctor_owns:
  "unique_lock_ctor L th s = Returned lock th1 s1 \<Longrightarrow> owns lock \<and> m_lock s1"
  by (auto simp: unique_lock_ctor_def seq_Returned return_def mutex_lock_def suspend_def
      split: if_splits list.splits option.splits)

lemma unique_lock_ctor_free:
  "\<not> m_lock s \<Longrightarrow>
     unique_lock_ctor L th s = Returned \<lparr>owns = True\<rparr> th (s\<lparr>m_lock := True\<rparr>)"
  by (simp add: unique_lock_ctor_def seq_def mutex_lock_def return_def)

section \<open>The assignments to the counter\<close>

lemma clamp_bounds: "clamp v 0 L = Some c \<Longrightarrow> 0 \<le> c \<and> c \<le> L"
  by (auto simp: clamp_def split: if_splits)

lemma add_count_bounds: "add_count L c u = Some c' \<Longrightarrow> 0 \<le> c' \<and> c' \<le> L"
  by (auto simp: add_count_def dest: clamp_bounds split: option.splits)

lemma decrement_count_bounds: "decrement_count L c = Some c' \<Longrightarrow> 0 \<le> c' \<and> c' \<le> L"
  by (auto simp: decrement_count_def dest: clamp_bounds split: option.splits)

lemma add_count_value:
  "0 \<le> L \<Longrightarrow> ptrdiff (c + u) \<Longrightarrow> add_count L c u = Some (max 0 (min L (c + u)))"
  by (auto simp: add_count_def add_ptrdiff_def clamp_def)

lemma decrement_count_value:
  "0 < c \<Longrightarrow> c \<le> L + 1 \<Longrightarrow> ptrdiff L \<Longrightarrow> decrement_count L c = Some (c - 1)"
  by (auto simp: decrement_count_def sub_ptrdiff_def clamp_def ptrdiff_def PTRDIFF_MIN_def)

section \<open>What a call that returns has done\<close>

lemma release_Returned:
  "release L update th s = Returned x th' s' \<longleftrightarrow>
     (\<exists>lock th1 s1 c. unique_lock_ctor L th s = Returned lock th1 s1 \<and>
        add_count L (m_count s1) update = Some c \<and>
        th' = th1 \<and> s' = s1\<lparr>m_count := c, m_cv := 0, m_lock := False\<rparr>)"
proof (cases "unique_lock_ctor L th s")
  case (Returned lock th1 s1)
  then have "owns lock"
    by (simp add: unique_lock_ctor_owns)
  with Returned show ?thesis
    by (cases "add_count L (m_count s1) update")
       (auto simp: release_def seq_def assign_count_def notify_all_def unique_lock_unlock_def
          mutex_unlock_def return_def unique_lock_dtor_def)
qed (simp_all add: release_def seq_def)

lemma cv_wait_pred_holds:
  "cv_wait_pred L lock pred th s = Returned x th' s' \<Longrightarrow> pred s'"
proof (induction L lock pred th s rule: cv_wait_pred.induct)
  case (1 L lock pred th s)
  show ?case
  proof (cases "pred s")
    case True
    with "1.prems" show ?thesis by (simp add: cv_wait_pred.simps [of L lock pred th s])
  next
    case False
    with "1.prems" obtain u th1 s1 where
      w: "cv_wait L lock th s = Returned u th1 s1"
      and r: "cv_wait_pred L lock pred th1 s1 = Returned x th' s'"
      by (simp add: cv_wait_pred.simps [of L lock pred th s] split: outcome.splits)
    from "1.IH" [OF False w r] show ?thesis .
  qed
qed

lemma cv_wait_until_pred_holds:
  "cv_wait_until_pred L lock abs_time pred th s = Returned b th' s' \<Longrightarrow> b = pred s'"
proof (induction L lock abs_time pred th s rule: cv_wait_until_pred.induct)
  case (1 L lock abs_time pred th s)
  show ?case
  proof (cases "pred s")
    case True
    with "1.prems" show ?thesis
      by (simp add: cv_wait_until_pred.simps [of L lock abs_time pred th s])
  next
    case False
    with "1.prems" obtain st th1 s1 where
      w: "cv_wait_until L lock abs_time th s = Returned st th1 s1"
      and r: "if st = timeout then Returned (pred s1) th1 s1 = Returned b th' s'
              else cv_wait_until_pred L lock abs_time pred th1 s1 = Returned b th' s'"
      by (simp add: cv_wait_until_pred.simps [of L lock abs_time pred th s]
          split: outcome.splits if_splits)
    show ?thesis
    proof (cases "st = timeout")
      case True
      with r show ?thesis by auto
    next
      case no: False
      with r have "cv_wait_until_pred L lock abs_time pred th1 s1 = Returned b th' s'"
        by simp
      from "1.IH" [OF False w no this] show ?thesis .
    qed
  qed
qed

lemma acquire_Returned:
  "acquire L th s = Returned x th' s' \<longleftrightarrow>
     (\<exists>lock th1 s1 s2 c. unique_lock_ctor L th s = Returned lock th1 s1 \<and>
        cv_wait_pred L lock count_positive th1 s1 = Returned () th' s2 \<and>
        decrement_count L (m_count s2) = Some c \<and>
        s' = s2\<lparr>m_count := c, m_cv := 0, m_lock := False\<rparr>)"
proof (cases "unique_lock_ctor L th s")
  case ctor: (Returned lock th1 s1)
  then have o: "owns lock"
    by (simp add: unique_lock_ctor_owns)
  show ?thesis
  proof (cases "cv_wait_pred L lock count_positive th1 s1")
    case (Returned u th2 s2)
    with ctor o show ?thesis
      by (cases "decrement_count L (m_count s2)")
         (auto simp: acquire_def seq_def assign_count_def notify_all_def unique_lock_unlock_def
            mutex_unlock_def return_def unique_lock_dtor_def)
  qed (simp_all add: acquire_def seq_def ctor)
qed (simp_all add: acquire_def seq_def)


lemma cv_wait_until_pred_timed_out:
  "cv_wait_until_pred L lock abs_time pred th s = Returned False th' s' \<Longrightarrow> abs_time \<le> now th'"
proof (induction L lock abs_time pred th s rule: cv_wait_until_pred.induct)
  case (1 L lock abs_time pred th s)
  show ?case
  proof (cases "pred s")
    case True
    with "1.prems" show ?thesis
      by (simp add: cv_wait_until_pred.simps [of L lock abs_time pred th s])
  next
    case False
    with "1.prems" obtain st th1 s1 where
      w: "cv_wait_until L lock abs_time th s = Returned st th1 s1"
      and r: "if st = timeout then Returned (pred s1) th1 s1 = Returned False th' s'
              else cv_wait_until_pred L lock abs_time pred th1 s1 = Returned False th' s'"
      by (simp add: cv_wait_until_pred.simps [of L lock abs_time pred th s]
          split: outcome.splits if_splits)
    show ?thesis
    proof (cases "st = timeout")
      case True
      with r have "th1 = th'" by simp
      with w True show ?thesis
        by (auto simp: cv_wait_until_def seq_Returned split: if_splits)
    next
      case no: False
      with r have "cv_wait_until_pred L lock abs_time pred th1 s1 = Returned False th' s'"
        by simp
      from "1.IH" [OF False w no this] show ?thesis .
    qed
  qed
qed

lemma try_acquire_for_Returned:
  "try_acquire_for L rel_time th s = Returned b th' s' \<longleftrightarrow>
     (\<exists>lock th1 s1 s2. unique_lock_ctor L th s = Returned lock th1 s1 \<and>
        cv_wait_for_pred L lock rel_time count_positive th1 s1 = Returned b th' s2 \<and>
        (if b then \<exists>c. decrement_count L (m_count s2) = Some c \<and>
                     s' = s2\<lparr>m_count := c, m_lock := False\<rparr>
         else s' = s2\<lparr>m_lock := False\<rparr>))"
proof (cases "unique_lock_ctor L th s")
  case ctor: (Returned lock th1 s1)
  then have o: "owns lock"
    by (simp add: unique_lock_ctor_owns)
  show ?thesis
  proof (cases "cv_wait_for_pred L lock rel_time count_positive th1 s1")
    case (Returned ok th2 s2)
    with ctor o show ?thesis
      by (cases "decrement_count L (m_count s2)")
         (auto simp: try_acquire_for_def seq_def assign_count_def mutex_unlock_def return_def
            unique_lock_dtor_def)
  qed (simp_all add: try_acquire_for_def seq_def ctor)
qed (simp_all add: try_acquire_for_def seq_def)

lemma try_acquire_until_Returned:
  "try_acquire_until L abs_time th s = Returned b th' s' \<longleftrightarrow>
     (\<exists>lock th1 s1 s2. unique_lock_ctor L th s = Returned lock th1 s1 \<and>
        cv_wait_until_pred L lock abs_time count_positive th1 s1 = Returned b th' s2 \<and>
        (if b then \<exists>c. decrement_count L (m_count s2) = Some c \<and>
                     s' = s2\<lparr>m_count := c, m_lock := False\<rparr>
         else s' = s2\<lparr>m_lock := False\<rparr>))"
proof (cases "unique_lock_ctor L th s")
  case ctor: (Returned lock th1 s1)
  then have o: "owns lock"
    by (simp add: unique_lock_ctor_owns)
  show ?thesis
  proof (cases "cv_wait_until_pred L lock abs_time count_positive th1 s1")
    case (Returned ok th2 s2)
    with ctor o show ?thesis
      by (cases "decrement_count L (m_count s2)")
         (auto simp: try_acquire_until_def seq_def assign_count_def mutex_unlock_def return_def
            unique_lock_dtor_def)
  qed (simp_all add: try_acquire_until_def seq_def ctor)
qed (simp_all add: try_acquire_until_def seq_def)

section \<open>What the other threads do meanwhile\<close>

lemma others_update_append:
  "others_update L (us @ vs) c =
     (case others_update L us c of None \<Rightarrow> None | Some c1 \<Rightarrow> others_update L vs c1)"
  by (induction us arbitrary: c) (auto split: option.splits)

lemma others_only_refl: "m_count s' = m_count s \<Longrightarrow> wakes th' = wakes th \<Longrightarrow> others_only L th s th' s'"
  by (auto simp: others_only_def intro: exI [of _ "[]"])

lemma others_only_trans:
  assumes "others_only L th s th1 s1" and "others_only L th1 s1 th2 s2"
  shows "others_only L th s th2 s2"
proof -
  from assms(1) obtain u1 where
    1: "wakes th = u1 @ wakes th1"
       "others_update L (concat (map others u1)) (m_count s) = Some (m_count s1)"
    by (auto simp: others_only_def)
  from assms(2) obtain u2 where
    2: "wakes th1 = u2 @ wakes th2"
       "others_update L (concat (map others u2)) (m_count s1) = Some (m_count s2)"
    by (auto simp: others_only_def)
  from 1 2 have "wakes th = (u1 @ u2) @ wakes th2"
    and "others_update L (concat (map others (u1 @ u2))) (m_count s) = Some (m_count s2)"
    by (simp_all add: others_update_append)
  then show ?thesis
    unfolding others_only_def by blast
qed

lemma suspend_others_only:
  assumes "suspend L th s = Returned x th' s'"
  shows "others_only L th s th' s'"
proof -
  from assms obtain w ws where "wakes th = w # ws" "wakes th' = ws"
    "others_update L (others w) (m_count s) = Some (m_count s')"
    by (auto simp: suspend_def split: list.splits option.splits)
  then have "wakes th = [w] @ wakes th'"
    and "others_update L (concat (map others [w])) (m_count s) = Some (m_count s')"
    by simp_all
  then show ?thesis
    unfolding others_only_def by blast
qed

lemma unique_lock_ctor_others_only:
  "unique_lock_ctor L th s = Returned lock th' s' \<Longrightarrow> others_only L th s th' s'"
  by (auto simp: unique_lock_ctor_def seq_Returned return_def mutex_lock_def
      intro: suspend_others_only others_only_refl split: if_splits)

lemma cv_wait_others_only:
  assumes "cv_wait L lock th s = Returned x th' s'"
  shows "others_only L th s th' s'"
proof -
  from assms have "suspend L th (s\<lparr>m_cv := m_cv s + 1, m_lock := False\<rparr>) = Returned x th' s'"
    by (simp add: cv_wait_def split: if_splits)
  then have "others_only L th (s\<lparr>m_cv := m_cv s + 1, m_lock := False\<rparr>) th' s'"
    by (rule suspend_others_only)
  then show ?thesis
    by (simp add: others_only_def)
qed

lemma cv_wait_until_Returned:
  "cv_wait_until L lock abs_time th s = Returned st th' s' \<longleftrightarrow>
     owns lock \<and>
     suspend_until L abs_time th (s\<lparr>m_cv := m_cv s + 1, m_lock := False\<rparr>)
       = Returned () th' s' \<and>
     st = (if now th' < abs_time then no_timeout else timeout)"
  by (auto simp: cv_wait_until_def seq_Returned)

lemma suspend_until_others_only:
  assumes "suspend_until L abs_time th s = Returned x th' s'"
  shows "others_only L th s th' s'"
proof (cases "wakes th")
  case Nil
  with assms show ?thesis
    by (auto simp: suspend_until_def intro: others_only_refl)
next
  case (Cons w ws)
  with assms have "wakes th = [w] @ wakes th'"
    and "others_update L (concat (map others [w])) (m_count s) = Some (m_count s')"
    by (auto simp: suspend_until_def split: option.splits)
  then show ?thesis
    unfolding others_only_def by blast
qed

lemma cv_wait_until_others_only:
  assumes "cv_wait_until L lock abs_time th s = Returned st th' s'"
  shows "others_only L th s th' s'"
proof -
  from assms
  have "others_only L th (s\<lparr>m_cv := m_cv s + 1, m_lock := False\<rparr>) th' s'"
    by (auto simp: cv_wait_until_Returned intro: suspend_until_others_only)
  then show ?thesis
    by (simp add: others_only_def)
qed

lemma cv_wait_pred_others_only:
  "cv_wait_pred L lock pred th s = Returned x th' s' \<Longrightarrow> others_only L th s th' s'"
proof (induction L lock pred th s rule: cv_wait_pred.induct)
  case (1 L lock pred th s)
  show ?case
  proof (cases "pred s")
    case True
    with "1.prems" show ?thesis
      by (simp add: cv_wait_pred.simps [of L lock pred th s] others_only_refl)
  next
    case False
    with "1.prems" obtain u th1 s1 where
      w: "cv_wait L lock th s = Returned u th1 s1"
      and r: "cv_wait_pred L lock pred th1 s1 = Returned x th' s'"
      by (simp add: cv_wait_pred.simps [of L lock pred th s] split: outcome.splits)
    from w have "others_only L th s th1 s1"
      by (rule cv_wait_others_only)
    with "1.IH" [OF False w r] show ?thesis
      by (blast intro: others_only_trans)
  qed
qed

lemma cv_wait_until_pred_others_only:
  "cv_wait_until_pred L lock abs_time pred th s = Returned b th' s' \<Longrightarrow>
     others_only L th s th' s'"
proof (induction L lock abs_time pred th s rule: cv_wait_until_pred.induct)
  case (1 L lock abs_time pred th s)
  show ?case
  proof (cases "pred s")
    case True
    with "1.prems" show ?thesis
      by (simp add: cv_wait_until_pred.simps [of L lock abs_time pred th s] others_only_refl)
  next
    case False
    with "1.prems" obtain st th1 s1 where
      w: "cv_wait_until L lock abs_time th s = Returned st th1 s1"
      and r: "if st = timeout then Returned (pred s1) th1 s1 = Returned b th' s'
              else cv_wait_until_pred L lock abs_time pred th1 s1 = Returned b th' s'"
      by (simp add: cv_wait_until_pred.simps [of L lock abs_time pred th s]
          split: outcome.splits if_splits)
    from w have o1: "others_only L th s th1 s1"
      by (rule cv_wait_until_others_only)
    show ?thesis
    proof (cases "st = timeout")
      case True
      with r o1 show ?thesis by auto
    next
      case no: False
      with r have "cv_wait_until_pred L lock abs_time pred th1 s1 = Returned b th' s'"
        by simp
      from "1.IH" [OF False w no this] o1 show ?thesis
        by (blast intro: others_only_trans)
    qed
  qed
qed

lemma others_only_undisturbed:
  assumes "others_only L th s th' s'" and "\<forall>w \<in> set (wakes th). others w = []"
  shows "m_count s' = m_count s"
proof -
  from assms(1) obtain used where
    u: "wakes th = used @ wakes th'"
       "others_update L (concat (map others used)) (m_count s) = Some (m_count s')"
    by (auto simp: others_only_def)
  from u(1) assms(2) have "concat (map others used) = []"
    by auto
  with u(2) show ?thesis
    by simp
qed

section \<open>The counter stays within its bounds\<close>

lemma others_update_in_bounds:
  "others_update L us c = Some c' \<Longrightarrow> 0 \<le> c \<and> c \<le> L \<Longrightarrow> 0 \<le> c' \<and> c' \<le> L"
proof (induction us arbitrary: c)
  case Nil
  then show ?case by simp
next
  case (Cons u us)
  from Cons.prems(1) obtain c1 where
    a: "add_count L c u = Some c1" and r: "others_update L us c1 = Some c'"
    by (auto split: option.splits)
  from a have "0 \<le> c1 \<and> c1 \<le> L"
    by (rule add_count_bounds)
  with Cons.IH [OF r] show ?case .
qed

lemma suspend_in_bounds:
  "suspend L th s = Returned x th' s' \<Longrightarrow> in_bounds L s \<Longrightarrow> in_bounds L s'"
  by (auto simp: suspend_def in_bounds_def dest: others_update_in_bounds
      split: list.splits option.splits)

lemma unique_lock_ctor_in_bounds:
  "unique_lock_ctor L th s = Returned lock th' s' \<Longrightarrow> in_bounds L s \<Longrightarrow> in_bounds L s'"
  by (auto simp: unique_lock_ctor_def seq_Returned return_def mutex_lock_def in_bounds_def
      dest: suspend_in_bounds [unfolded in_bounds_def] split: if_splits)

lemma cv_wait_in_bounds:
  "cv_wait L lock th s = Returned x th' s' \<Longrightarrow> in_bounds L s \<Longrightarrow> in_bounds L s'"
  by (auto simp: cv_wait_def in_bounds_def
      dest!: suspend_in_bounds [unfolded in_bounds_def] split: if_splits)

lemma cv_wait_until_in_bounds:
  "cv_wait_until L lock abs_time th s = Returned st th' s' \<Longrightarrow> in_bounds L s
     \<Longrightarrow> in_bounds L s'"
  by (auto simp: cv_wait_until_Returned suspend_until_def in_bounds_def
      dest: others_update_in_bounds split: list.splits option.splits)

lemma cv_wait_until_pred_in_bounds:
  "cv_wait_until_pred L lock abs_time pred th s = Returned b th' s' \<Longrightarrow>
     in_bounds L s \<Longrightarrow> in_bounds L s'"
proof (induction L lock abs_time pred th s rule: cv_wait_until_pred.induct)
  case (1 L lock abs_time pred th s)
  show ?case
  proof (cases "pred s")
    case True
    with "1.prems" show ?thesis
      by (simp add: cv_wait_until_pred.simps [of L lock abs_time pred th s])
  next
    case False
    with "1.prems" obtain st th1 s1 where
      w: "cv_wait_until L lock abs_time th s = Returned st th1 s1"
      and r: "if st = timeout then Returned (pred s1) th1 s1 = Returned b th' s'
              else cv_wait_until_pred L lock abs_time pred th1 s1 = Returned b th' s'"
      by (simp add: cv_wait_until_pred.simps [of L lock abs_time pred th s]
          split: outcome.splits if_splits)
    from w "1.prems"(2) have b1: "in_bounds L s1"
      by (rule cv_wait_until_in_bounds)
    show ?thesis
    proof (cases "st = timeout")
      case True
      with r b1 show ?thesis by auto
    next
      case no: False
      with r have "cv_wait_until_pred L lock abs_time pred th1 s1 = Returned b th' s'"
        by simp
      from "1.IH" [OF False w no this b1] show ?thesis .
    qed
  qed
qed

lemma try_acquire_not_Returned: "try_acquire L th s \<noteq> Returned b th' s'"
proof (cases "unique_lock_ctor L th s")
  case (Returned lock th1 s1)
  then have "owns lock"
    by (simp add: unique_lock_ctor_owns)
  with Returned show ?thesis
    by (simp add: try_acquire_def noexcept_def seq_def unique_lock_try_lock_def)
qed (simp_all add: try_acquire_def noexcept_def seq_def)

lemma invoke_in_bounds:
  assumes "invoke L c th s = Returned x th' s'" and "in_bounds L s"
  shows "in_bounds L s'"
proof (cases c)
  case (Release update)
  with assms(1) show ?thesis
    by (auto simp: release_Returned in_bounds_def dest: add_count_bounds)
next
  case Acquire
  with assms(1) show ?thesis
    by (auto simp: acquire_Returned in_bounds_def dest: decrement_count_bounds)
next
  case Try_acquire
  with assms(1) show ?thesis
    by (auto simp: seq_Returned try_acquire_not_Returned)
next
  case (Try_acquire_for rel_time)
  with assms(1) obtain b lock th1 s1 s2 d where
    ctor: "unique_lock_ctor L th s = Returned lock th1 s1"
    and w: "cv_wait_until_pred L lock d count_positive th1 s1 = Returned b th' s2"
    and f: "if b then \<exists>c. decrement_count L (m_count s2) = Some c \<and>
                     s' = s2\<lparr>m_count := c, m_lock := False\<rparr>
         else s' = s2\<lparr>m_lock := False\<rparr>"
    by (auto simp: seq_Returned return_def try_acquire_for_Returned cv_wait_for_pred_def
        split: option.splits)
  from ctor assms(2) have "in_bounds L s1"
    by (rule unique_lock_ctor_in_bounds)
  with w have "in_bounds L s2"
    by (rule cv_wait_until_pred_in_bounds)
  with f show ?thesis
    by (cases b) (auto simp: in_bounds_def dest: decrement_count_bounds)
next
  case (Try_acquire_until abs_time)
  with assms(1) obtain b lock th1 s1 s2 where
    ctor: "unique_lock_ctor L th s = Returned lock th1 s1"
    and w: "cv_wait_until_pred L lock abs_time count_positive th1 s1 = Returned b th' s2"
    and f: "if b then \<exists>c. decrement_count L (m_count s2) = Some c \<and>
                     s' = s2\<lparr>m_count := c, m_lock := False\<rparr>
         else s' = s2\<lparr>m_lock := False\<rparr>"
    by (auto simp: seq_Returned return_def try_acquire_until_Returned)
  from ctor assms(2) have "in_bounds L s1"
    by (rule unique_lock_ctor_in_bounds)
  with w have "in_bounds L s2"
    by (rule cv_wait_until_pred_in_bounds)
  with f show ?thesis
    by (cases b) (auto simp: in_bounds_def dest: decrement_count_bounds)
qed

section \<open>\<^verbatim>\<open>try_acquire\<close>\<close>

text \<open>
  C10. In \<^verbatim>\<open>try_acquire\<close> the constructor of the \<^verbatim>\<open>unique_lock\<close> has locked the mutex
  before \<^verbatim>\<open>lock.try_lock()\<close> is called. On a lock that owns its mutex \<^verbatim>\<open>try_lock\<close> throws
  instead of returning a \<^verbatim>\<open>bool\<close>, and \<^verbatim>\<open>try_acquire\<close> is \<^verbatim>\<open>noexcept\<close>: no call of
  \<^verbatim>\<open>try_acquire\<close> returns, whatever the semaphore, the bound and the other threads do, and
  once the constructor has the mutex the call ends in \<^verbatim>\<open>std::terminate\<close>.
\<close>

theorem try_acquire_never_returns:
  "(\<forall>b th' s'. try_acquire L th s \<noteq> Returned b th' s') \<and>
   (\<forall>lock th1 s1. unique_lock_ctor L th s = Returned lock th1 s1 \<longrightarrow>
      unique_lock_try_lock lock th1 s1 = Thrown resource_deadlock_would_occur \<and>
      try_acquire L th s = Terminated)"
proof (cases "unique_lock_ctor L th s")
  case (Returned lock th1 s1)
  then have "owns lock"
    by (simp add: unique_lock_ctor_owns)
  then have thrown: "unique_lock_try_lock lock th1 s1 = Thrown resource_deadlock_would_occur"
    by (simp add: unique_lock_try_lock_def)
  with Returned have "try_acquire L th s = Terminated"
    by (simp add: try_acquire_def noexcept_def seq_def)
  with Returned thrown show ?thesis
    by simp
qed (simp_all add: try_acquire_def noexcept_def seq_def)

theorem try_acquire_never_returns_witness:
  "unique_lock_ctor 1 \<lparr>now = 0, wakes = []\<rparr> (counting_semaphore 1)
     = Returned \<lparr>owns = True\<rparr> \<lparr>now = 0, wakes = []\<rparr>
         \<lparr>m_count = 1, m_cv = 0, m_lock = True\<rparr> \<and>
   try_acquire 1 \<lparr>now = 0, wakes = []\<rparr> (counting_semaphore 1) = Terminated"
proof -
  have held: "unique_lock_ctor 1 \<lparr>now = 0, wakes = []\<rparr> (counting_semaphore 1)
     = Returned \<lparr>owns = True\<rparr> \<lparr>now = 0, wakes = []\<rparr>
         \<lparr>m_count = 1, m_cv = 0, m_lock = True\<rparr>"
    by (simp add: unique_lock_ctor_free counting_semaphore_def)
  from try_acquire_never_returns [of 1 "\<lparr>now = 0, wakes = []\<rparr>" "counting_semaphore 1"] held
  show ?thesis
    by blast
qed

text \<open>
  C1. With the mutex free and no other thread around, \<^verbatim>\<open>try_acquire\<close> on a
  \<^verbatim>\<open>counting_semaphore<3>\<close> holding 2 permits, and on one holding none, does not decrement
  the counter and return \<^verbatim>\<open>true\<close>: the program is terminated.
\<close>

theorem try_acquire_uncontended_terminates:
  "try_acquire 3 \<lparr>now = 0, wakes = []\<rparr> (counting_semaphore 2) = Terminated \<and>
   try_acquire 3 \<lparr>now = 0, wakes = []\<rparr> (counting_semaphore 0) = Terminated"
  by (simp add: try_acquire_def noexcept_def seq_def unique_lock_ctor_def mutex_lock_def
      return_def unique_lock_try_lock_def counting_semaphore_def)

section \<open>A call that has the mutex and need not wait\<close>

lemma decrement_count_Some:
  "decrement_count L c = Some c' \<Longrightarrow> 0 < c \<Longrightarrow> c' = min (c - 1) L"
  by (auto simp: decrement_count_def sub_ptrdiff_def clamp_def split: if_splits)

lemma release_with_lock:
  "unique_lock_ctor L th s = Returned lock th1 s1 \<Longrightarrow> add_count L (m_count s1) update = Some c
     \<Longrightarrow> release L update th s = Returned () th1 (s1\<lparr>m_count := c, m_cv := 0, m_lock := False\<rparr>)"
  by (simp add: release_Returned)

lemma cv_wait_pred_now:
  "pred s \<Longrightarrow> cv_wait_pred L lock pred th s = Returned () th s"
  by (simp add: cv_wait_pred.simps [of L lock pred th s])

lemma cv_wait_until_pred_now:
  "pred s \<Longrightarrow> cv_wait_until_pred L lock abs_time pred th s = Returned True th s"
  by (simp add: cv_wait_until_pred.simps [of L lock abs_time pred th s])

lemma acquire_with_lock:
  "unique_lock_ctor L th s = Returned lock th1 s1 \<Longrightarrow> 0 < m_count s1
     \<Longrightarrow> decrement_count L (m_count s1) = Some c
     \<Longrightarrow> acquire L th s = Returned () th1 (s1\<lparr>m_count := c, m_cv := 0, m_lock := False\<rparr>)"
  by (simp add: acquire_Returned cv_wait_pred_now count_positive_def)

section \<open>\<^verbatim>\<open>release\<close>\<close>

text \<open>
  C4, as stated, fails: with the counter at the bound 1, \<^verbatim>\<open>release(PTRDIFF_MAX)\<close> does not
  leave the counter at 1. The sum \<^verbatim>\<open>m_count + update\<close> is formed before \<^verbatim>\<open>std::clamp\<close>
  sees it, and here it overflows \<^verbatim>\<open>std::ptrdiff_t\<close>: the behaviour is undefined.
\<close>

theorem release_overflow_counterexample:
  "in_bounds 1 (counting_semaphore 1) \<and>
   release 1 PTRDIFF_MAX \<lparr>now = 0, wakes = []\<rparr> (counting_semaphore 1) = Undefined"
  by (simp add: in_bounds_def counting_semaphore_def release_def seq_def unique_lock_ctor_def
      mutex_lock_def return_def add_count_def add_ptrdiff_def ptrdiff_def PTRDIFF_MAX_def
      PTRDIFF_MIN_def assign_count_def)

text \<open>
  C4, amended. Once \<^verbatim>\<open>release(update)\<close> has the mutex, with the counter \<open>c\<close> in
  \<open>[0, LeastMaxValue]\<close> and \<open>c + update\<close> representable in \<^verbatim>\<open>std::ptrdiff_t\<close>, it
  returns with the counter set to \<open>c + update\<close> clamped to \<open>[0, LeastMaxValue]\<close>: a release
  beyond the bound leaves the bound, a negative update decrements with a floor of 0. All
  waiters have been notified and the mutex is free again.
\<close>

theorem release_clamps:
  assumes "unique_lock_ctor L th s = Returned lock th1 s1"
    and "0 \<le> m_count s1" and "m_count s1 \<le> L"
    and "ptrdiff (m_count s1 + update)"
  shows "release L update th s =
           Returned () th1
             (s1\<lparr>m_count := max 0 (min L (m_count s1 + update)), m_cv := 0, m_lock := False\<rparr>)"
proof -
  from assms have "add_count L (m_count s1) update = Some (max 0 (min L (m_count s1 + update)))"
    by (intro add_count_value) simp_all
  with assms(1) show ?thesis
    by (rule release_with_lock)
qed

theorem release_clamps_witness:
  "release 3 5 \<lparr>now = 0, wakes = []\<rparr> \<lparr>m_count = 2, m_cv = 4, m_lock = False\<rparr>
     = Returned () \<lparr>now = 0, wakes = []\<rparr> \<lparr>m_count = 3, m_cv = 0, m_lock = False\<rparr> \<and>
   release 3 (- 7) \<lparr>now = 0, wakes = []\<rparr> \<lparr>m_count = 2, m_cv = 4, m_lock = False\<rparr>
     = Returned () \<lparr>now = 0, wakes = []\<rparr> \<lparr>m_count = 0, m_cv = 0, m_lock = False\<rparr>"
proof -
  have ctor: "unique_lock_ctor 3 \<lparr>now = 0, wakes = []\<rparr> \<lparr>m_count = 2, m_cv = 4, m_lock = False\<rparr>
      = Returned \<lparr>owns = True\<rparr> \<lparr>now = 0, wakes = []\<rparr> \<lparr>m_count = 2, m_cv = 4, m_lock = True\<rparr>"
    by (simp add: unique_lock_ctor_free)
  have "ptrdiff (2 + 5)" and "ptrdiff (2 + (- 7))"
    by (simp_all add: ptrdiff_def PTRDIFF_MIN_def PTRDIFF_MAX_def)
  with release_clamps [OF ctor, of 5] release_clamps [OF ctor, of "- 7"] show ?thesis
    by simp
qed

section \<open>\<^verbatim>\<open>max\<close> and the constructor\<close>

text \<open>
  C8. \<^verbatim>\<open>max()\<close> returns \<^verbatim>\<open>LeastMaxValue\<close> and leaves the counter, the condition variable
  and the mutex (and the calling thread) as they were; for \<^verbatim>\<open>binary_semaphore\<close> it
  returns 1.
\<close>

theorem max_value_pure:
  "max_value L th s = Returned L th s \<and>
   max_value binary_semaphore_LeastMaxValue th s = Returned 1 th s"
  by (simp add: max_value_def noexcept_def return_def binary_semaphore_LeastMaxValue_def)

text \<open>
  C9. The constructor stores \<open>desired\<close> as it is, for every value of it, so the new
  semaphore is within its bounds only if \<open>desired\<close> is; the first call that assigns to the
  counter and returns (a \<^verbatim>\<open>release\<close>, an \<^verbatim>\<open>acquire\<close>, or a \<^verbatim>\<open>try_acquire_for\<close> or
  \<^verbatim>\<open>try_acquire_until\<close> that returns \<^verbatim>\<open>true\<close>) has clamped it into
  \<open>[0, LeastMaxValue]\<close>.
\<close>

theorem constructor_stores_desired:
  "m_count (counting_semaphore desired) = desired \<and>
   (in_bounds L (counting_semaphore desired) \<longleftrightarrow> 0 \<le> desired \<and> desired \<le> L) \<and>
   (\<forall>update x th' s'.
      release L update th (counting_semaphore desired) = Returned x th' s' \<longrightarrow> in_bounds L s') \<and>
   (\<forall>x th' s'.
      acquire L th (counting_semaphore desired) = Returned x th' s' \<longrightarrow> in_bounds L s') \<and>
   (\<forall>rel_time th' s'.
      try_acquire_for L rel_time th (counting_semaphore desired) = Returned True th' s'
        \<longrightarrow> in_bounds L s') \<and>
   (\<forall>abs_time th' s'.
      try_acquire_until L abs_time th (counting_semaphore desired) = Returned True th' s'
        \<longrightarrow> in_bounds L s')"
  by (auto simp: counting_semaphore_def in_bounds_def release_Returned acquire_Returned
      try_acquire_for_Returned try_acquire_until_Returned
      dest: add_count_bounds decrement_count_bounds)

theorem constructor_stores_desired_witness:
  "m_count (counting_semaphore 5) = 5 \<and> \<not> in_bounds 1 (counting_semaphore 5) \<and>
   m_count (counting_semaphore (- 3)) = - 3 \<and> \<not> in_bounds 1 (counting_semaphore (- 3)) \<and>
   release 1 0 \<lparr>now = 0, wakes = []\<rparr> (counting_semaphore (- 3))
     = Returned () \<lparr>now = 0, wakes = []\<rparr> \<lparr>m_count = 0, m_cv = 0, m_lock = False\<rparr> \<and>
   in_bounds 1 \<lparr>m_count = 0, m_cv = 0, m_lock = False\<rparr> \<and>
   acquire 1 \<lparr>now = 0, wakes = []\<rparr> (counting_semaphore 5)
     = Returned () \<lparr>now = 0, wakes = []\<rparr> \<lparr>m_count = 1, m_cv = 0, m_lock = False\<rparr> \<and>
   try_acquire_for 1 2 \<lparr>now = 0, wakes = []\<rparr> (counting_semaphore 5)
     = Returned True \<lparr>now = 0, wakes = []\<rparr> \<lparr>m_count = 1, m_cv = 0, m_lock = False\<rparr> \<and>
   try_acquire_until 1 2 \<lparr>now = 0, wakes = []\<rparr> (counting_semaphore 5)
     = Returned True \<lparr>now = 0, wakes = []\<rparr> \<lparr>m_count = 1, m_cv = 0, m_lock = False\<rparr> \<and>
   in_bounds 1 \<lparr>m_count = 1, m_cv = 0, m_lock = False\<rparr>"
proof -
  have r: "release 1 0 \<lparr>now = 0, wakes = []\<rparr> (counting_semaphore (- 3))
     = Returned () \<lparr>now = 0, wakes = []\<rparr> \<lparr>m_count = 0, m_cv = 0, m_lock = False\<rparr>"
    and a: "acquire 1 \<lparr>now = 0, wakes = []\<rparr> (counting_semaphore 5)
     = Returned () \<lparr>now = 0, wakes = []\<rparr> \<lparr>m_count = 1, m_cv = 0, m_lock = False\<rparr>"
    and f: "try_acquire_for 1 2 \<lparr>now = 0, wakes = []\<rparr> (counting_semaphore 5)
     = Returned True \<lparr>now = 0, wakes = []\<rparr> \<lparr>m_count = 1, m_cv = 0, m_lock = False\<rparr>"
    and u: "try_acquire_until 1 2 \<lparr>now = 0, wakes = []\<rparr> (counting_semaphore 5)
     = Returned True \<lparr>now = 0, wakes = []\<rparr> \<lparr>m_count = 1, m_cv = 0, m_lock = False\<rparr>"
    by (simp_all add: run_defs)
  note new5 = constructor_stores_desired [of 5 1 "\<lparr>now = 0, wakes = []\<rparr>"]
  note new3 = constructor_stores_desired [of "- 3" 1 "\<lparr>now = 0, wakes = []\<rparr>"]
  from new5 have "m_count (counting_semaphore 5) = 5" and "\<not> in_bounds 1 (counting_semaphore 5)"
    by simp_all
  moreover from new3
  have "m_count (counting_semaphore (- 3)) = - 3" and "\<not> in_bounds 1 (counting_semaphore (- 3))"
    by simp_all
  moreover from new3 r have "in_bounds 1 \<lparr>m_count = 0, m_cv = 0, m_lock = False\<rparr>"
    by blast
  moreover from new5 a have "in_bounds 1 \<lparr>m_count = 1, m_cv = 0, m_lock = False\<rparr>"
    by blast
  ultimately show ?thesis
    using r a f u by simp
qed

section \<open>Calls without overflow\<close>

lemma add_count_fits:
  assumes "0 \<le> c" and "c \<le> L" and "update_fits L u"
  shows "\<exists>c'. add_count L c u = Some c' \<and> 0 \<le> c' \<and> c' \<le> L"
proof -
  from assms have "ptrdiff (c + u)" and "0 \<le> L"
    by (auto simp: update_fits_def ptrdiff_def)
  then have "add_count L c u = Some (max 0 (min L (c + u)))"
    by (simp add: add_count_value)
  with \<open>0 \<le> L\<close> show ?thesis
    by auto
qed

lemma others_update_fits:
  "list_all (update_fits L) us \<Longrightarrow> 0 \<le> c \<Longrightarrow> c \<le> L
     \<Longrightarrow> \<exists>c'. others_update L us c = Some c' \<and> 0 \<le> c' \<and> c' \<le> L"
proof (induction us arbitrary: c)
  case Nil
  then show ?case by simp
next
  case (Cons u us)
  from Cons.prems obtain c1 where
    c1: "add_count L c u = Some c1" "0 \<le> c1" "c1 \<le> L"
    using add_count_fits [of c L u] by auto
  from Cons.prems have "list_all (update_fits L) us"
    by simp
  from Cons.IH [OF this c1(2,3)] c1(1) show ?case
    by simp
qed

lemma sound_seq:
  assumes "sound L tm (m th s)"
    and "\<And>x th1 s1. m th s = Returned x th1 s1 \<Longrightarrow> in_bounds L s1 \<Longrightarrow> thread_fits L th1
           \<Longrightarrow> sound L tm (f x th1 s1)"
  shows "sound L tm (seq m f th s)"
  using assms by (cases "m th s") (simp_all add: seq_def)

lemma suspend_sound:
  assumes "in_bounds L s" and "thread_fits L th"
  shows "sound L tm (suspend L th s)"
proof (cases "wakes th")
  case Nil
  with assms show ?thesis
    by (simp add: suspend_def)
next
  case (Cons w ws)
  with assms have "list_all (update_fits L) (others w)" and fits: "thread_fits L (th\<lparr>now := t, wakes := ws\<rparr>)" for t
    by (simp_all add: thread_fits_def)
  with assms(1) obtain c where "others_update L (others w) (m_count s) = Some c" "0 \<le> c" "c \<le> L"
    using others_update_fits [of L "others w" "m_count s"] by (auto simp: in_bounds_def)
  with Cons fits show ?thesis
    by (simp add: suspend_def in_bounds_def)
qed

lemma suspend_until_sound:
  assumes "in_bounds L s" and "thread_fits L th"
  shows "sound L tm (suspend_until L abs_time th s)"
proof (cases "wakes th")
  case Nil
  with assms show ?thesis
    by (simp add: suspend_until_def in_bounds_def thread_fits_def)
next
  case (Cons w ws)
  with assms have "list_all (update_fits L) (others w)" and fits: "thread_fits L (th\<lparr>now := t, wakes := ws\<rparr>)" for t
    by (simp_all add: thread_fits_def)
  with assms(1) obtain c where "others_update L (others w) (m_count s) = Some c" "0 \<le> c" "c \<le> L"
    using others_update_fits [of L "others w" "m_count s"] by (auto simp: in_bounds_def)
  with Cons fits show ?thesis
    by (simp add: suspend_until_def in_bounds_def)
qed

lemma unique_lock_ctor_sound:
  assumes "in_bounds L s" and "thread_fits L th"
  shows "sound L tm (unique_lock_ctor L th s)"
proof (cases "m_lock s")
  case True
  with suspend_sound [OF assms, of tm] show ?thesis
    by (cases "suspend L th s") (simp_all add: unique_lock_ctor_def seq_def mutex_lock_def return_def)
next
  case False
  with assms show ?thesis
    by (simp add: unique_lock_ctor_def seq_def mutex_lock_def return_def in_bounds_def)
qed

lemma cv_wait_sound:
  assumes "in_bounds L s" and "thread_fits L th" and "owns lock"
  shows "sound L tm (cv_wait L lock th s)"
  using assms suspend_sound [of L "s\<lparr>m_cv := m_cv s + 1, m_lock := False\<rparr>" th tm]
  by (simp add: cv_wait_def in_bounds_def)

lemma cv_wait_until_sound:
  assumes "in_bounds L s" and "thread_fits L th" and "owns lock"
  shows "sound L tm (cv_wait_until L lock abs_time th s)"
proof -
  from assms have "sound L tm (suspend_until L abs_time th (s\<lparr>m_cv := m_cv s + 1, m_lock := False\<rparr>))"
    by (intro suspend_until_sound) (simp_all add: in_bounds_def)
  with assms(3) show ?thesis
    by (cases "suspend_until L abs_time th (s\<lparr>m_cv := m_cv s + 1, m_lock := False\<rparr>)")
       (simp_all add: cv_wait_until_def seq_def)
qed

lemma cv_wait_pred_sound:
  "in_bounds L s \<Longrightarrow> thread_fits L th \<Longrightarrow> owns lock
     \<Longrightarrow> sound L tm (cv_wait_pred L lock pred th s)"
proof (induction L lock pred th s rule: cv_wait_pred.induct)
  case (1 L lock pred th s)
  show ?case
  proof (cases "pred s")
    case True
    with "1.prems" show ?thesis
      by (simp add: cv_wait_pred.simps [of L lock pred th s])
  next
    case False
    from "1.prems" have w: "sound L tm (cv_wait L lock th s)"
      by (rule cv_wait_sound)
    show ?thesis
    proof (cases "cv_wait L lock th s")
      case (Returned u th1 s1)
      with w have "in_bounds L s1" "thread_fits L th1"
        by simp_all
      from "1.IH" [OF False Returned this "1.prems"(3)] False Returned show ?thesis
        by (simp add: cv_wait_pred.simps [of L lock pred th s])
    qed (use w False in \<open>simp_all add: cv_wait_pred.simps [of L lock pred th s]\<close>)
  qed
qed

lemma cv_wait_until_pred_sound:
  "in_bounds L s \<Longrightarrow> thread_fits L th \<Longrightarrow> owns lock
     \<Longrightarrow> sound L tm (cv_wait_until_pred L lock abs_time pred th s)"
proof (induction L lock abs_time pred th s rule: cv_wait_until_pred.induct)
  case (1 L lock abs_time pred th s)
  show ?case
  proof (cases "pred s")
    case True
    with "1.prems" show ?thesis
      by (simp add: cv_wait_until_pred.simps [of L lock abs_time pred th s])
  next
    case False
    from "1.prems" have w: "sound L tm (cv_wait_until L lock abs_time th s)"
      by (rule cv_wait_until_sound)
    show ?thesis
    proof (cases "cv_wait_until L lock abs_time th s")
      case (Returned st th1 s1)
      with w have b: "in_bounds L s1" "thread_fits L th1"
        by simp_all
      show ?thesis
      proof (cases "st = timeout")
        case True
        with b False Returned show ?thesis
          by (simp add: cv_wait_until_pred.simps [of L lock abs_time pred th s])
      next
        case no: False
        from "1.IH" [OF False Returned no b "1.prems"(3)] False Returned no show ?thesis
          by (simp add: cv_wait_until_pred.simps [of L lock abs_time pred th s])
      qed
    qed (use w False in \<open>simp_all add: cv_wait_until_pred.simps [of L lock abs_time pred th s]\<close>)
  qed
qed

lemma unique_lock_ctor_clock_bounds:
  "unique_lock_ctor L th s = Returned lock th1 s1 \<Longrightarrow>
     now th \<le> now th1 \<and> now th1 \<le> now th + int (sum_list (map elapsed (wakes th)))"
  by (auto simp: unique_lock_ctor_def seq_Returned return_def mutex_lock_def suspend_def
      split: if_splits list.splits option.splits)

lemma decrement_sound:
  assumes "in_bounds L s" and "0 < m_count s" and "ptrdiff L"
  shows "\<exists>c. decrement_count L (m_count s) = Some c \<and> 0 \<le> c \<and> c \<le> L"
proof -
  from assms have "decrement_count L (m_count s) = Some (m_count s - 1)"
    by (intro decrement_count_value) (simp_all add: in_bounds_def)
  with assms show ?thesis
    by (simp add: in_bounds_def)
qed

lemma release_sound:
  assumes "in_bounds L s" and "thread_fits L th" and "update_fits L update"
  shows "sound L False (release L update th s)"
proof (cases "unique_lock_ctor L th s")
  case (Returned lock th1 s1)
  with unique_lock_ctor_sound [OF assms(1,2), of False]
  have b: "in_bounds L s1" "thread_fits L th1"
    by simp_all
  with assms(3) obtain c where "add_count L (m_count s1) update = Some c" "0 \<le> c" "c \<le> L"
    using add_count_fits [of "m_count s1" L update] by (auto simp: in_bounds_def)
  with Returned b show ?thesis
    by (simp add: release_with_lock in_bounds_def)
qed (use unique_lock_ctor_sound [OF assms(1,2), of False] in \<open>simp_all add: release_def seq_def\<close>)

lemma acquire_sound:
  assumes "in_bounds L s" and "thread_fits L th" and "ptrdiff L"
  shows "sound L False (acquire L th s)"
proof (cases "unique_lock_ctor L th s")
  case ctor: (Returned lock th1 s1)
  with unique_lock_ctor_sound [OF assms(1,2), of False]
  have b: "in_bounds L s1" "thread_fits L th1"
    by simp_all
  from ctor have o: "owns lock"
    by (simp add: unique_lock_ctor_owns)
  from b o have w: "sound L False (cv_wait_pred L lock count_positive th1 s1)"
    by (rule cv_wait_pred_sound)
  show ?thesis
  proof (cases "cv_wait_pred L lock count_positive th1 s1")
    case (Returned u th2 s2)
    with w have b2: "in_bounds L s2" "thread_fits L th2"
      by simp_all
    from Returned have "0 < m_count s2"
      by (auto dest: cv_wait_pred_holds simp: count_positive_def)
    with b2 assms(3) obtain c where "decrement_count L (m_count s2) = Some c" "0 \<le> c" "c \<le> L"
      using decrement_sound [of L s2] by auto
    with ctor Returned b2 have "acquire L th s
        = Returned () th2 (s2\<lparr>m_count := c, m_cv := 0, m_lock := False\<rparr>)"
      by (auto simp: acquire_Returned)
    with b2 \<open>0 \<le> c\<close> \<open>c \<le> L\<close> show ?thesis
      by (simp add: in_bounds_def)
  qed (use w ctor in \<open>simp_all add: acquire_def seq_def\<close>)
qed (use unique_lock_ctor_sound [OF assms(1,2), of False] in \<open>simp_all add: acquire_def seq_def\<close>)

lemma try_acquire_sound:
  assumes "in_bounds L s" and "thread_fits L th"
  shows "sound L True (try_acquire L th s)"
proof (cases "unique_lock_ctor L th s")
  case (Returned lock th1 s1)
  then have "owns lock"
    by (simp add: unique_lock_ctor_owns)
  with Returned show ?thesis
    by (simp add: try_acquire_def noexcept_def seq_def unique_lock_try_lock_def)
qed (use unique_lock_ctor_sound [OF assms, of True] in
      \<open>simp_all add: try_acquire_def noexcept_def seq_def\<close>)

lemma timed_sound:
  assumes ctor: "unique_lock_ctor L th s = Returned lock th1 s1"
    and b: "in_bounds L s1" "thread_fits L th1" and "ptrdiff L"
    and w: "wait th1 s1 = cv_wait_until_pred L lock d count_positive th1 s1"
  shows "sound L False
    (seq wait (\<lambda>ok.
       if ok then
         seq (\<lambda>th s. assign_count (decrement_count L (m_count s)) th s) (\<lambda>_.
         seq (unique_lock_dtor lock) (\<lambda>_.
         return True))
       else
         seq (unique_lock_dtor lock) (\<lambda>_.
         return False)) th1 s1)"
proof -
  from ctor have o: "owns lock"
    by (simp add: unique_lock_ctor_owns)
  from b o have sw: "sound L False (cv_wait_until_pred L lock d count_positive th1 s1)"
    by (rule cv_wait_until_pred_sound)
  show ?thesis
  proof (cases "cv_wait_until_pred L lock d count_positive th1 s1")
    case (Returned ok th2 s2)
    with sw have b2: "in_bounds L s2" "thread_fits L th2"
      by simp_all
    show ?thesis
    proof (cases ok)
      case True
      with Returned have "0 < m_count s2"
        by (auto dest: cv_wait_until_pred_holds simp: count_positive_def)
      with b2 assms(4) obtain c where "decrement_count L (m_count s2) = Some c" "0 \<le> c" "c \<le> L"
        using decrement_sound [of L s2] by auto
      with Returned True b2 o w show ?thesis
        by (simp add: seq_def assign_count_def unique_lock_dtor_def mutex_unlock_def return_def
            in_bounds_def)
    next
      case False
      with Returned b2 o w show ?thesis
        by (simp add: seq_def unique_lock_dtor_def mutex_unlock_def return_def in_bounds_def)
    qed
  qed (use sw w in \<open>simp_all add: seq_def\<close>)
qed

lemma try_acquire_until_sound:
  assumes "in_bounds L s" and "thread_fits L th" and "ptrdiff L"
  shows "sound L False (try_acquire_until L abs_time th s)"
proof (cases "unique_lock_ctor L th s")
  case ctor: (Returned lock th1 s1)
  with unique_lock_ctor_sound [OF assms(1,2), of False]
  have b: "in_bounds L s1" "thread_fits L th1"
    by simp_all
  have "cv_wait_until_pred L lock abs_time count_positive th1 s1
      = cv_wait_until_pred L lock abs_time count_positive th1 s1"
    by simp
  from timed_sound [where wait = "cv_wait_until_pred L lock abs_time count_positive"
      and d = abs_time, OF ctor b assms(3) this] ctor
  show ?thesis
    by (simp add: try_acquire_until_def seq_def)
qed (use unique_lock_ctor_sound [OF assms(1,2), of False] in
      \<open>simp_all add: try_acquire_until_def seq_def\<close>)

lemma try_acquire_for_sound:
  assumes "in_bounds L s" and "thread_fits L th" and "ptrdiff L"
    and "clock_rep (now th + rel_time)"
    and "clock_rep (now th + int (sum_list (map elapsed (wakes th))) + rel_time)"
  shows "sound L False (try_acquire_for L rel_time th s)"
proof (cases "unique_lock_ctor L th s")
  case ctor: (Returned lock th1 s1)
  with unique_lock_ctor_sound [OF assms(1,2), of False]
  have b: "in_bounds L s1" "thread_fits L th1"
    by simp_all
  from ctor assms(4,5) have "clock_rep (now th1 + rel_time)"
    by (auto simp: clock_rep_def dest!: unique_lock_ctor_clock_bounds)
  then have "cv_wait_for_pred L lock rel_time count_positive th1 s1
      = cv_wait_until_pred L lock (now th1 + rel_time) count_positive th1 s1"
    by (simp add: cv_wait_for_pred_def add_ticks_def)
  from timed_sound [where wait = "cv_wait_for_pred L lock rel_time count_positive"
      and d = "now th1 + rel_time", OF ctor b assms(3) this] ctor
  show ?thesis
    by (simp add: try_acquire_for_def seq_def)
qed (use unique_lock_ctor_sound [OF assms(1,2), of False] in
      \<open>simp_all add: try_acquire_for_def seq_def\<close>)

lemma invoke_sound:
  assumes "in_bounds L s" and "ptrdiff L" and "call_fits L (th, c)"
  shows "sound L (c = Try_acquire) (invoke L c th s)"
proof (cases c)
  case (Release update)
  with assms release_sound [of L s th update] show ?thesis
    by simp
next
  case Acquire
  with assms acquire_sound [of L s th] show ?thesis
    by simp
next
  case Try_acquire
  with assms have "sound L True (try_acquire L th s)"
    by (simp add: try_acquire_sound)
  with Try_acquire show ?thesis
    by (cases "try_acquire L th s") (simp_all add: seq_def return_def)
next
  case (Try_acquire_for rel_time)
  with assms have "sound L False (try_acquire_for L rel_time th s)"
    by (simp add: try_acquire_for_sound)
  with Try_acquire_for show ?thesis
    by (cases "try_acquire_for L rel_time th s") (simp_all add: seq_def return_def)
next
  case (Try_acquire_until abs_time)
  with assms have "sound L False (try_acquire_until L abs_time th s)"
    by (simp add: try_acquire_until_sound)
  with Try_acquire_until show ?thesis
    by (cases "try_acquire_until L abs_time th s") (simp_all add: seq_def return_def)
qed

section \<open>The invariant\<close>

text \<open>
  C2, as stated, fails for a \<^verbatim>\<open>release\<close> with any update: on a bound of 1, after
  \<^verbatim>\<open>release(1)\<close> the counter is 1, and \<^verbatim>\<open>release(PTRDIFF_MAX)\<close> then overflows in
  \<^verbatim>\<open>m_count + update\<close>. The behaviour is undefined; no state in which the invariant could
  hold is reached, and the sequence ends there.
\<close>

theorem release_overflow_in_sequence_counterexample:
  "in_bounds 1 (counting_semaphore 0) \<and>
   outcomes 1
     [(\<lparr>now = 0, wakes = []\<rparr>, Release 1), (\<lparr>now = 1, wakes = []\<rparr>, Release PTRDIFF_MAX),
      (\<lparr>now = 2, wakes = []\<rparr>, Acquire)]
     (counting_semaphore 0)
   = [(Release 1, Returned () \<lparr>now = 0, wakes = []\<rparr> \<lparr>m_count = 1, m_cv = 0, m_lock = False\<rparr>),
      (Release PTRDIFF_MAX, Undefined)]"
  by (simp add: in_bounds_def run_defs)

text \<open>
  C2, amended. Start from a semaphore whose counter is in \<open>[0, LeastMaxValue]\<close> and let any
  threads make any sequence of calls of \<^verbatim>\<open>release\<close>, \<^verbatim>\<open>acquire\<close>, \<^verbatim>\<open>try_acquire\<close>,
  \<^verbatim>\<open>try_acquire_for\<close> and \<^verbatim>\<open>try_acquire_until\<close>, other threads updating the counter
  whenever a caller is suspended. After every call that returns, the counter is in
  \<open>[0, LeastMaxValue]\<close>. If moreover no signed addition overflows, every call that is made
  returns or leaves its caller blocked, in both cases with the counter in
  \<open>[0, LeastMaxValue]\<close>, or is a \<^verbatim>\<open>try_acquire\<close> that terminates the program; none has
  undefined behaviour and none throws.
\<close>

theorem count_stays_in_bounds:
  assumes "in_bounds L s"
  shows "(\<forall>s' \<in> set (states_after L calls s). in_bounds L s') \<and>
         (ptrdiff L \<and> list_all (call_fits L) calls \<longrightarrow>
            (\<forall>(c, r) \<in> set (outcomes L calls s). sound L (c = Try_acquire) r))"
proof (intro conjI impI)
  from assms show "\<forall>s' \<in> set (states_after L calls s). in_bounds L s'"
  proof (induction calls arbitrary: s)
    case Nil
    then show ?case by simp
  next
    case (Cons a calls)
    obtain th c where a: "a = (th, c)"
      by (cases a)
    show ?case
    proof (cases "invoke L c th s")
      case (Returned x th' s')
      with Cons.prems have "in_bounds L s'"
        by (auto dest: invoke_in_bounds)
      with Cons.IH [of s'] Returned a show ?thesis
        by simp
    qed (simp_all add: a)
  qed
next
  assume "ptrdiff L \<and> list_all (call_fits L) calls"
  with assms show "\<forall>(c, r) \<in> set (outcomes L calls s). sound L (c = Try_acquire) r"
  proof (induction calls arbitrary: s)
    case Nil
    then show ?case by simp
  next
    case (Cons a calls)
    obtain th c where a: "a = (th, c)"
      by (cases a)
    with Cons.prems have sound: "sound L (c = Try_acquire) (invoke L c th s)"
      by (intro invoke_sound) simp_all
    show ?case
    proof (cases "invoke L c th s")
      case (Returned x th' s')
      with sound have "in_bounds L s'"
        by simp
      with Cons.IH [of s'] Cons.prems(2) have "\<forall>(c, r) \<in> set (outcomes L calls s'). sound L (c = Try_acquire) r"
        by simp
      with Returned a sound show ?thesis
        by simp
    qed (use sound a in simp_all)
  qed
qed

theorem count_stays_in_bounds_witness:
  "in_bounds 2 (counting_semaphore 0) \<and> ptrdiff 2 \<and>
   list_all (call_fits 2)
     [(\<lparr>now = 0, wakes = []\<rparr>, Release 5),
      (\<lparr>now = 1, wakes = []\<rparr>, Acquire),
      (\<lparr>now = 9, wakes = []\<rparr>, Try_acquire_until 4),
      (\<lparr>now = 9, wakes = [\<lparr>elapsed = 10, others = [], waiting = 0\<rparr>]\<rparr>, Try_acquire_for 10),
      (\<lparr>now = 20, wakes = [\<lparr>elapsed = 1, others = [2, - 1], waiting = 0\<rparr>]\<rparr>, Acquire),
      (\<lparr>now = 30, wakes = []\<rparr>, Release (- 3)),
      (\<lparr>now = 31, wakes = []\<rparr>, Acquire)] \<and>
   outcomes 2
     [(\<lparr>now = 0, wakes = []\<rparr>, Release 5),
      (\<lparr>now = 1, wakes = []\<rparr>, Acquire),
      (\<lparr>now = 9, wakes = []\<rparr>, Try_acquire_until 4),
      (\<lparr>now = 9, wakes = [\<lparr>elapsed = 10, others = [], waiting = 0\<rparr>]\<rparr>, Try_acquire_for 10),
      (\<lparr>now = 20, wakes = [\<lparr>elapsed = 1, others = [2, - 1], waiting = 0\<rparr>]\<rparr>, Acquire),
      (\<lparr>now = 30, wakes = []\<rparr>, Release (- 3)),
      (\<lparr>now = 31, wakes = []\<rparr>, Acquire)]
     (counting_semaphore 0)
   = [(Release 5, Returned () \<lparr>now = 0, wakes = []\<rparr> \<lparr>m_count = 2, m_cv = 0, m_lock = False\<rparr>),
      (Acquire, Returned () \<lparr>now = 1, wakes = []\<rparr> \<lparr>m_count = 1, m_cv = 0, m_lock = False\<rparr>),
      (Try_acquire_until 4,
         Returned () \<lparr>now = 9, wakes = []\<rparr> \<lparr>m_count = 0, m_cv = 0, m_lock = False\<rparr>),
      (Try_acquire_for 10,
         Returned () \<lparr>now = 19, wakes = []\<rparr> \<lparr>m_count = 0, m_cv = 0, m_lock = False\<rparr>),
      (Acquire, Returned () \<lparr>now = 21, wakes = []\<rparr> \<lparr>m_count = 0, m_cv = 0, m_lock = False\<rparr>),
      (Release (- 3),
         Returned () \<lparr>now = 30, wakes = []\<rparr> \<lparr>m_count = 0, m_cv = 0, m_lock = False\<rparr>),
      (Acquire, Blocked \<lparr>m_count = 0, m_cv = 1, m_lock = False\<rparr>)] \<and>
   in_bounds 2 \<lparr>m_count = 1, m_cv = 0, m_lock = False\<rparr> \<and>
   in_bounds 2 \<lparr>m_count = 0, m_cv = 1, m_lock = False\<rparr>"
proof -
  let ?calls = "[(\<lparr>now = 0, wakes = []\<rparr>, Release 5),
      (\<lparr>now = 1, wakes = []\<rparr>, Acquire),
      (\<lparr>now = 9, wakes = []\<rparr>, Try_acquire_until 4),
      (\<lparr>now = 9, wakes = [\<lparr>elapsed = 10, others = [], waiting = 0\<rparr>]\<rparr>, Try_acquire_for 10),
      (\<lparr>now = 20, wakes = [\<lparr>elapsed = 1, others = [2, - 1], waiting = 0\<rparr>]\<rparr>, Acquire),
      (\<lparr>now = 30, wakes = []\<rparr>, Release (- 3)),
      (\<lparr>now = 31, wakes = []\<rparr>, Acquire)]"
  have start: "in_bounds 2 (counting_semaphore 0)"
    by (simp add: in_bounds_def counting_semaphore_def)
  have fits: "ptrdiff 2 \<and> list_all (call_fits 2) ?calls"
    by (simp add: thread_fits_def update_fits_def clock_rep_def ptrdiff_def PTRDIFF_MIN_def
        PTRDIFF_MAX_def)
  have states: "states_after 2 ?calls (counting_semaphore 0)
   = [\<lparr>m_count = 2, m_cv = 0, m_lock = False\<rparr>,
      \<lparr>m_count = 1, m_cv = 0, m_lock = False\<rparr>,
      \<lparr>m_count = 0, m_cv = 0, m_lock = False\<rparr>,
      \<lparr>m_count = 0, m_cv = 0, m_lock = False\<rparr>,
      \<lparr>m_count = 0, m_cv = 0, m_lock = False\<rparr>,
      \<lparr>m_count = 0, m_cv = 0, m_lock = False\<rparr>]"
    by (simp add: run_defs)
  have run: "outcomes 2 ?calls (counting_semaphore 0)
   = [(Release 5, Returned () \<lparr>now = 0, wakes = []\<rparr> \<lparr>m_count = 2, m_cv = 0, m_lock = False\<rparr>),
      (Acquire, Returned () \<lparr>now = 1, wakes = []\<rparr> \<lparr>m_count = 1, m_cv = 0, m_lock = False\<rparr>),
      (Try_acquire_until 4,
         Returned () \<lparr>now = 9, wakes = []\<rparr> \<lparr>m_count = 0, m_cv = 0, m_lock = False\<rparr>),
      (Try_acquire_for 10,
         Returned () \<lparr>now = 19, wakes = []\<rparr> \<lparr>m_count = 0, m_cv = 0, m_lock = False\<rparr>),
      (Acquire, Returned () \<lparr>now = 21, wakes = []\<rparr> \<lparr>m_count = 0, m_cv = 0, m_lock = False\<rparr>),
      (Release (- 3),
         Returned () \<lparr>now = 30, wakes = []\<rparr> \<lparr>m_count = 0, m_cv = 0, m_lock = False\<rparr>),
      (Acquire, Blocked \<lparr>m_count = 0, m_cv = 1, m_lock = False\<rparr>)]"
    by (simp add: run_defs)
  note inv = count_stays_in_bounds [OF start, of ?calls]
  from inv have "\<forall>s' \<in> set (states_after 2 ?calls (counting_semaphore 0)). in_bounds 2 s'"
    by (rule conjunct1)
  then have 1: "in_bounds 2 \<lparr>m_count = 1, m_cv = 0, m_lock = False\<rparr>"
    unfolding states by simp
  from inv fits
  have "\<forall>(c, r) \<in> set (outcomes 2 ?calls (counting_semaphore 0)). sound 2 (c = Try_acquire) r"
    by blast
  then have 2: "in_bounds 2 \<lparr>m_count = 0, m_cv = 1, m_lock = False\<rparr>"
    unfolding run by simp
  from start fits run 1 2 show ?thesis
    by simp
qed

section \<open>\<^verbatim>\<open>acquire\<close>\<close>

lemma failed_seq:
  "failed (seq m f th s) \<longleftrightarrow>
     failed (m th s) \<or> (\<exists>x th1 s1. m th s = Returned x th1 s1 \<and> failed (f x th1 s1))"
  by (cases "m th s") (simp_all add: seq_def)

lemma suspend_not_failed: "\<not> failed (suspend L th s)"
  by (simp add: suspend_def split: list.splits option.splits)

lemma unique_lock_ctor_not_failed: "\<not> failed (unique_lock_ctor L th s)"
  by (auto simp: unique_lock_ctor_def failed_seq mutex_lock_def return_def suspend_not_failed)

lemma cv_wait_not_failed: "\<not> failed (cv_wait L lock th s)"
  by (simp add: cv_wait_def suspend_not_failed)

lemma cv_wait_pred_not_failed: "\<not> failed (cv_wait_pred L lock pred th s)"
proof (induction L lock pred th s rule: cv_wait_pred.induct)
  case (1 L lock pred th s)
  show ?case
  proof (cases "pred s")
    case True
    then show ?thesis
      by (simp add: cv_wait_pred.simps [of L lock pred th s])
  next
    case False
    show ?thesis
    proof (cases "cv_wait L lock th s")
      case (Returned u th1 s1)
      with "1.IH" [OF False Returned] False show ?thesis
        by (simp add: cv_wait_pred.simps [of L lock pred th s])
    next
      case (Thrown e)
      with cv_wait_not_failed [of L lock th s] show ?thesis by simp
    next
      case Terminated
      with cv_wait_not_failed [of L lock th s] show ?thesis by simp
    qed (simp_all add: cv_wait_pred.simps [of L lock pred th s] False)
  qed
qed

lemma acquire_not_failed: "\<not> failed (acquire L th s)"
proof (cases "unique_lock_ctor L th s")
  case ctor: (Returned lock th1 s1)
  then have o: "owns lock"
    by (simp add: unique_lock_ctor_owns)
  show ?thesis
  proof (cases "cv_wait_pred L lock count_positive th1 s1")
    case (Returned u th2 s2)
    with ctor o show ?thesis
      by (cases "decrement_count L (m_count s2)")
         (simp_all add: acquire_def seq_def assign_count_def notify_all_def
            unique_lock_unlock_def mutex_unlock_def return_def unique_lock_dtor_def)
  next
    case (Thrown e)
    with cv_wait_pred_not_failed [of L lock count_positive th1 s1] show ?thesis by simp
  next
    case Terminated
    with cv_wait_pred_not_failed [of L lock count_positive th1 s1] show ?thesis by simp
  qed (simp_all add: acquire_def seq_def ctor)
next
  case (Thrown e)
  with unique_lock_ctor_not_failed [of L th s] show ?thesis by simp
next
  case Terminated
  with unique_lock_ctor_not_failed [of L th s] show ?thesis by simp
qed (simp_all add: acquire_def seq_def)

lemma cv_wait_pred_blocks:
  "owns lock \<Longrightarrow> \<not> pred s \<Longrightarrow> wakes th = []
     \<Longrightarrow> cv_wait_pred L lock pred th s = Blocked (s\<lparr>m_cv := m_cv s + 1, m_lock := False\<rparr>)"
  by (simp add: cv_wait_pred.simps [of L lock pred th s] cv_wait_def suspend_def)

text \<open>
  C5. \<^verbatim>\<open>acquire\<close> never ends in an exception or in \<^verbatim>\<open>std::terminate\<close>. It proceeds only
  when the counter is positive: when it returns, the counter that the other threads' updates
  had left was some \<open>c > 0\<close>, and the call has set it to \<open>c - 1\<close> cut at
  \<^verbatim>\<open>LeastMaxValue\<close>, so the clamp at 0 has not applied; with the counter not positive and no
  other thread to change it, the call stays blocked. For every state within the bounds in
  which it has the mutex with the counter at \<open>c > 0\<close>, it returns at once with the counter
  at \<open>c - 1\<close>, all waiters notified and the mutex free.
\<close>

theorem acquire_decrements:
  "\<not> failed (acquire L th s) \<and>
   (\<forall>th' s'. acquire L th s = Returned () th' s' \<longrightarrow>
      (\<exists>used c. wakes th = used @ wakes th' \<and>
         others_update L (concat (map others used)) (m_count s) = Some c \<and> 0 < c \<and>
         decrement_count L c = Some (m_count s') \<and> m_count s' = min (c - 1) L)) \<and>
   (\<forall>lock th1 s1.
      unique_lock_ctor L th s = Returned lock th1 s1 \<and>
      in_bounds L s1 \<and> 0 < m_count s1 \<and> ptrdiff L \<longrightarrow>
      acquire L th s =
        Returned () th1 (s1\<lparr>m_count := m_count s1 - 1, m_cv := 0, m_lock := False\<rparr>)) \<and>
   (\<forall>lock th1 s1.
      unique_lock_ctor L th s = Returned lock th1 s1 \<and> m_count s1 \<le> 0 \<and> wakes th1 = [] \<longrightarrow>
      acquire L th s = Blocked (s1\<lparr>m_cv := m_cv s1 + 1, m_lock := False\<rparr>))"
proof (intro conjI allI impI)
  show "\<not> failed (acquire L th s)"
    by (rule acquire_not_failed)
next
  fix th' s'
  assume "acquire L th s = Returned () th' s'"
  then obtain lock th1 s1 s2 c' where
    ctor: "unique_lock_ctor L th s = Returned lock th1 s1"
    and w: "cv_wait_pred L lock count_positive th1 s1 = Returned () th' s2"
    and d: "decrement_count L (m_count s2) = Some c'"
    and s': "s' = s2\<lparr>m_count := c', m_cv := 0, m_lock := False\<rparr>"
    by (auto simp: acquire_Returned)
  from w have pos: "0 < m_count s2"
    by (auto dest: cv_wait_pred_holds simp: count_positive_def)
  from ctor w have "others_only L th s th' s2"
    by (blast intro: others_only_trans unique_lock_ctor_others_only cv_wait_pred_others_only)
  then obtain used where
    "wakes th = used @ wakes th'"
    "others_update L (concat (map others used)) (m_count s) = Some (m_count s2)"
    by (auto simp: others_only_def)
  moreover from d pos have "c' = min (m_count s2 - 1) L"
    by (rule decrement_count_Some)
  ultimately show "\<exists>used c. wakes th = used @ wakes th' \<and>
         others_update L (concat (map others used)) (m_count s) = Some c \<and> 0 < c \<and>
         decrement_count L c = Some (m_count s') \<and> m_count s' = min (c - 1) L"
    using d s' pos by auto
next
  fix lock th1 s1
  assume a: "unique_lock_ctor L th s = Returned lock th1 s1 \<and>
      in_bounds L s1 \<and> 0 < m_count s1 \<and> ptrdiff L"
  then have "decrement_count L (m_count s1) = Some (m_count s1 - 1)"
    by (intro decrement_count_value) (simp_all add: in_bounds_def)
  with a show "acquire L th s =
        Returned () th1 (s1\<lparr>m_count := m_count s1 - 1, m_cv := 0, m_lock := False\<rparr>)"
    by (simp add: acquire_with_lock)
next
  fix lock th1 s1
  assume a: "unique_lock_ctor L th s = Returned lock th1 s1 \<and> m_count s1 \<le> 0 \<and> wakes th1 = []"
  then have "owns lock"
    by (auto dest: unique_lock_ctor_owns)
  with a have "cv_wait_pred L lock count_positive th1 s1
      = Blocked (s1\<lparr>m_cv := m_cv s1 + 1, m_lock := False\<rparr>)"
    by (intro cv_wait_pred_blocks) (simp_all add: count_positive_def)
  with a show "acquire L th s = Blocked (s1\<lparr>m_cv := m_cv s1 + 1, m_lock := False\<rparr>)"
    by (simp add: acquire_def seq_def)
qed

theorem acquire_decrements_witness:
  "acquire 3 \<lparr>now = 0, wakes = []\<rparr> \<lparr>m_count = 2, m_cv = 4, m_lock = False\<rparr>
     = Returned () \<lparr>now = 0, wakes = []\<rparr> \<lparr>m_count = 1, m_cv = 0, m_lock = False\<rparr> \<and>
   acquire 3 \<lparr>now = 0, wakes = []\<rparr> \<lparr>m_count = 3, m_cv = 4, m_lock = False\<rparr>
     = Returned () \<lparr>now = 0, wakes = []\<rparr> \<lparr>m_count = 2, m_cv = 0, m_lock = False\<rparr> \<and>
   acquire 3 \<lparr>now = 0, wakes = []\<rparr> \<lparr>m_count = 0, m_cv = 4, m_lock = False\<rparr>
     = Blocked \<lparr>m_count = 0, m_cv = 5, m_lock = False\<rparr>"
proof -
  have ctor: "unique_lock_ctor 3 \<lparr>now = 0, wakes = []\<rparr> \<lparr>m_count = c, m_cv = 4, m_lock = False\<rparr>
      = Returned \<lparr>owns = True\<rparr> \<lparr>now = 0, wakes = []\<rparr> \<lparr>m_count = c, m_cv = 4, m_lock = True\<rparr>"
    for c
    by (simp add: unique_lock_ctor_free)
  have "ptrdiff 3"
    by (simp add: ptrdiff_def PTRDIFF_MIN_def PTRDIFF_MAX_def)
  note at2 = acquire_decrements [of 3 "\<lparr>now = 0, wakes = []\<rparr>"
      "\<lparr>m_count = 2, m_cv = 4, m_lock = False\<rparr>", THEN conjunct2, THEN conjunct2, THEN conjunct1,
      rule_format, of _ _ "\<lparr>m_count = 2, m_cv = 4, m_lock = True\<rparr>"]
  note at3 = acquire_decrements [of 3 "\<lparr>now = 0, wakes = []\<rparr>"
      "\<lparr>m_count = 3, m_cv = 4, m_lock = False\<rparr>", THEN conjunct2, THEN conjunct2, THEN conjunct1,
      rule_format, of _ _ "\<lparr>m_count = 3, m_cv = 4, m_lock = True\<rparr>"]
  note at0 = acquire_decrements [of 3 "\<lparr>now = 0, wakes = []\<rparr>"
      "\<lparr>m_count = 0, m_cv = 4, m_lock = False\<rparr>", THEN conjunct2, THEN conjunct2, THEN conjunct2,
      rule_format, of _ _ "\<lparr>m_count = 0, m_cv = 4, m_lock = True\<rparr>"]
  from \<open>ptrdiff 3\<close> have "acquire 3 \<lparr>now = 0, wakes = []\<rparr> \<lparr>m_count = 2, m_cv = 4, m_lock = False\<rparr>
     = Returned () \<lparr>now = 0, wakes = []\<rparr> \<lparr>m_count = 1, m_cv = 0, m_lock = False\<rparr>"
    using at2 [of "\<lparr>owns = True\<rparr>" "\<lparr>now = 0, wakes = []\<rparr>"] by (simp add: ctor in_bounds_def)
  moreover
  from \<open>ptrdiff 3\<close> have "acquire 3 \<lparr>now = 0, wakes = []\<rparr> \<lparr>m_count = 3, m_cv = 4, m_lock = False\<rparr>
     = Returned () \<lparr>now = 0, wakes = []\<rparr> \<lparr>m_count = 2, m_cv = 0, m_lock = False\<rparr>"
    using at3 [of "\<lparr>owns = True\<rparr>" "\<lparr>now = 0, wakes = []\<rparr>"] by (simp add: ctor in_bounds_def)
  moreover
  have "acquire 3 \<lparr>now = 0, wakes = []\<rparr> \<lparr>m_count = 0, m_cv = 4, m_lock = False\<rparr>
     = Blocked \<lparr>m_count = 0, m_cv = 5, m_lock = False\<rparr>"
    using at0 [of "\<lparr>owns = True\<rparr>" "\<lparr>now = 0, wakes = []\<rparr>"] by (simp add: ctor)
  ultimately show ?thesis
    by simp
qed

section \<open>\<^verbatim>\<open>try_acquire_until\<close> with the deadline passed\<close>

lemma try_acquire_until_with_lock:
  "unique_lock_ctor L th s = Returned lock th1 s1 \<Longrightarrow> 0 < m_count s1
     \<Longrightarrow> decrement_count L (m_count s1) = Some c
     \<Longrightarrow> try_acquire_until L abs_time th s = Returned True th1 (s1\<lparr>m_count := c, m_lock := False\<rparr>)"
  by (auto simp: try_acquire_until_Returned cv_wait_until_pred_now count_positive_def)

lemma cv_wait_until_pred_past:
  assumes "owns lock" and "m_lock s" and "abs_time \<le> now th" and "m_count s \<le> 0"
  shows "cv_wait_until_pred L lock abs_time count_positive th s =
     (case wakes th of
        [] \<Rightarrow> Returned False th s
      | w # ws \<Rightarrow>
          (case others_update L (others w) (m_count s) of
             None \<Rightarrow> Undefined
           | Some c \<Rightarrow>
               Returned (0 < c) (th\<lparr>wakes := ws\<rparr>)
                 (s\<lparr>m_count := c, m_cv := waiting w, m_lock := True\<rparr>)))"
proof (cases "wakes th")
  case Nil
  have "th\<lparr>now := max (now th) abs_time\<rparr> = th"
    using assms(3) by (simp add: max_def)
  moreover have "s\<lparr>m_cv := m_cv s + 1 - 1, m_lock := True\<rparr> = s"
    using assms(2) by simp
  ultimately show ?thesis
    using assms Nil
    by (simp add: cv_wait_until_pred.simps [of L lock abs_time count_positive th s]
        cv_wait_until_def seq_def suspend_until_def count_positive_def)
next
  case (Cons w ws)
  have "min (now th + int (elapsed w)) (max (now th) abs_time) = now th"
    using assms(3) by simp
  moreover have "th\<lparr>now := now th, wakes := ws\<rparr> = th\<lparr>wakes := ws\<rparr>"
    by simp
  ultimately show ?thesis
    using assms Cons
    by (simp add: cv_wait_until_pred.simps [of L lock abs_time count_positive th s]
        cv_wait_until_def seq_def suspend_until_def count_positive_def split: option.splits)
qed

lemma try_acquire_until_run:
  assumes "unique_lock_ctor L th s = Returned lock th1 s1"
  shows "try_acquire_until L abs_time th s =
     (case cv_wait_until_pred L lock abs_time count_positive th1 s1 of
        Returned ok th2 s2 \<Rightarrow>
          if ok then
            (case decrement_count L (m_count s2) of
               None \<Rightarrow> Undefined
             | Some c \<Rightarrow> Returned True th2 (s2\<lparr>m_count := c, m_lock := False\<rparr>))
          else Returned False th2 (s2\<lparr>m_lock := False\<rparr>)
      | Blocked s' \<Rightarrow> Blocked s'
      | Thrown e \<Rightarrow> Thrown e
      | Terminated \<Rightarrow> Terminated
      | Undefined \<Rightarrow> Undefined)"
proof -
  from assms have "owns lock"
    by (simp add: unique_lock_ctor_owns)
  with assms show ?thesis
    by (simp add: try_acquire_until_def seq_def assign_count_def unique_lock_dtor_def
        mutex_unlock_def return_def split: outcome.splits option.splits)
qed

lemma try_acquire_for_run:
  assumes "unique_lock_ctor L th s = Returned lock th1 s1"
  shows "try_acquire_for L rel_time th s =
     (case cv_wait_for_pred L lock rel_time count_positive th1 s1 of
        Returned ok th2 s2 \<Rightarrow>
          if ok then
            (case decrement_count L (m_count s2) of
               None \<Rightarrow> Undefined
             | Some c \<Rightarrow> Returned True th2 (s2\<lparr>m_count := c, m_lock := False\<rparr>))
          else Returned False th2 (s2\<lparr>m_lock := False\<rparr>)
      | Blocked s' \<Rightarrow> Blocked s'
      | Thrown e \<Rightarrow> Thrown e
      | Terminated \<Rightarrow> Terminated
      | Undefined \<Rightarrow> Undefined)"
proof -
  from assms have "owns lock"
    by (simp add: unique_lock_ctor_owns)
  with assms show ?thesis
    by (simp add: try_acquire_for_def seq_def assign_count_def unique_lock_dtor_def
        mutex_unlock_def return_def split: outcome.splits option.splits)
qed

text \<open>
  C3, as stated, fails in two ways. At time 5, with the deadline 0 long past,
  \<^verbatim>\<open>try_acquire_until\<close> on a semaphore holding one permit returns \<^verbatim>\<open>true\<close> and takes
  the permit: \<^verbatim>\<open>wait_until\<close> evaluates the predicate before it looks at the clock. On a
  semaphore holding none, the timed wait drops the mutex before it reports the timeout; if
  another thread calls \<^verbatim>\<open>release(1)\<close> just then, the predicate, evaluated once more after
  the timeout, holds, and the call again returns \<^verbatim>\<open>true\<close>.
\<close>

theorem try_acquire_until_past_deadline_counterexample:
  "try_acquire_until 1 0 \<lparr>now = 5, wakes = []\<rparr> (counting_semaphore 1)
     = Returned True \<lparr>now = 5, wakes = []\<rparr> \<lparr>m_count = 0, m_cv = 0, m_lock = False\<rparr> \<and>
   m_count (counting_semaphore 1) \<noteq> 0 \<and>
   try_acquire_until 1 0 \<lparr>now = 5, wakes = [\<lparr>elapsed = 0, others = [1], waiting = 0\<rparr>]\<rparr>
       (counting_semaphore 0)
     = Returned True \<lparr>now = 5, wakes = []\<rparr> \<lparr>m_count = 0, m_cv = 0, m_lock = False\<rparr>"
  by (simp add: run_defs)

text \<open>
  C3, amended. Let the deadline be reached or passed when \<^verbatim>\<open>try_acquire_until\<close> is
  called. Once the call has the mutex it does not block, whatever the other threads do and
  also if they do nothing, and it returns at the time at which it got the mutex. It returns
  \<^verbatim>\<open>false\<close> and has not written the counter when the counter is not positive and is not
  made positive while the timed wait has dropped the mutex: with no other thread at work the
  semaphore is as before. It returns \<^verbatim>\<open>true\<close> and has decremented the counter (clamped)
  when the counter is positive at the call or has been made positive in that one moment.
\<close>

theorem try_acquire_until_past_deadline:
  assumes "unique_lock_ctor L th s = Returned lock th1 s1" and "abs_time \<le> now th"
  shows "(\<forall>s'. try_acquire_until L abs_time th s \<noteq> Blocked s') \<and>
         (\<forall>b th' s'. try_acquire_until L abs_time th s = Returned b th' s' \<longrightarrow>
            now th' = now th1) \<and>
         (0 < m_count s1 \<and> decrement_count L (m_count s1) = Some c \<longrightarrow>
            try_acquire_until L abs_time th s =
              Returned True th1 (s1\<lparr>m_count := c, m_lock := False\<rparr>)) \<and>
         (m_count s1 \<le> 0 \<and> wakes th1 = [] \<longrightarrow>
            try_acquire_until L abs_time th s = Returned False th1 (s1\<lparr>m_lock := False\<rparr>)) \<and>
         (m_count s1 \<le> 0 \<and> wakes th1 = w # ws \<and>
          others_update L (others w) (m_count s1) = Some c2 \<and> c2 \<le> 0 \<longrightarrow>
            try_acquire_until L abs_time th s =
              Returned False (th1\<lparr>wakes := ws\<rparr>)
                (s1\<lparr>m_count := c2, m_cv := waiting w, m_lock := False\<rparr>)) \<and>
         (m_count s1 \<le> 0 \<and> wakes th1 = w # ws \<and>
          others_update L (others w) (m_count s1) = Some c2 \<and> 0 < c2 \<and>
          decrement_count L c2 = Some c \<longrightarrow>
            try_acquire_until L abs_time th s =
              Returned True (th1\<lparr>wakes := ws\<rparr>)
                (s1\<lparr>m_count := c, m_cv := waiting w, m_lock := False\<rparr>))"
proof -
  from assms(1) have o: "owns lock" and l: "m_lock s1"
    by (auto dest: unique_lock_ctor_owns)
  from assms have past: "abs_time \<le> now th1"
    by (auto dest: unique_lock_ctor_clock_bounds)
  note run = try_acquire_until_run [OF assms(1), of abs_time]
  show ?thesis
  proof (cases "0 < m_count s1")
    case True
    then have "cv_wait_until_pred L lock abs_time count_positive th1 s1 = Returned True th1 s1"
      by (simp add: cv_wait_until_pred_now count_positive_def)
    with True show ?thesis
      by (auto simp: run split: option.splits)
  next
    case False
    then have "m_count s1 \<le> 0"
      by simp
    from cv_wait_until_pred_past [OF o l past this, of L] False show ?thesis
      by (cases "wakes th1") (auto simp: run split: option.splits)
  qed
qed

theorem try_acquire_until_past_deadline_witness:
  "try_acquire_until 3 7 \<lparr>now = 9, wakes = []\<rparr> \<lparr>m_count = 2, m_cv = 0, m_lock = False\<rparr>
     = Returned True \<lparr>now = 9, wakes = []\<rparr> \<lparr>m_count = 1, m_cv = 0, m_lock = False\<rparr> \<and>
   try_acquire_until 3 7 \<lparr>now = 9, wakes = []\<rparr> \<lparr>m_count = 0, m_cv = 0, m_lock = False\<rparr>
     = Returned False \<lparr>now = 9, wakes = []\<rparr> \<lparr>m_count = 0, m_cv = 0, m_lock = False\<rparr> \<and>
   try_acquire_until 3 7
       \<lparr>now = 9, wakes = [\<lparr>elapsed = 1000000, others = [], waiting = 0\<rparr>]\<rparr>
       \<lparr>m_count = 0, m_cv = 0, m_lock = False\<rparr>
     = Returned False \<lparr>now = 9, wakes = []\<rparr> \<lparr>m_count = 0, m_cv = 0, m_lock = False\<rparr>"
proof -
  have ctor: "unique_lock_ctor 3 t \<lparr>m_count = c, m_cv = 0, m_lock = False\<rparr>
      = Returned \<lparr>owns = True\<rparr> t \<lparr>m_count = c, m_cv = 0, m_lock = True\<rparr>" for c t
    by (simp add: unique_lock_ctor_free)
  have d: "decrement_count 3 2 = Some 1"
    by (simp add: decrement_count_def sub_ptrdiff_def ptrdiff_def PTRDIFF_MIN_def
        PTRDIFF_MAX_def clamp_def)
  from try_acquire_until_past_deadline [OF ctor, of 7 "\<lparr>now = 9, wakes = []\<rparr>" 2 1] d
  have 1: "try_acquire_until 3 7 \<lparr>now = 9, wakes = []\<rparr> \<lparr>m_count = 2, m_cv = 0, m_lock = False\<rparr>
     = Returned True \<lparr>now = 9, wakes = []\<rparr> \<lparr>m_count = 1, m_cv = 0, m_lock = False\<rparr>"
    by simp
  from try_acquire_until_past_deadline [OF ctor, of 7 "\<lparr>now = 9, wakes = []\<rparr>" 0]
  have 2: "try_acquire_until 3 7 \<lparr>now = 9, wakes = []\<rparr> \<lparr>m_count = 0, m_cv = 0, m_lock = False\<rparr>
     = Returned False \<lparr>now = 9, wakes = []\<rparr> \<lparr>m_count = 0, m_cv = 0, m_lock = False\<rparr>"
    by simp
  from try_acquire_until_past_deadline [OF ctor, of 7
      "\<lparr>now = 9, wakes = [\<lparr>elapsed = 1000000, others = [], waiting = 0\<rparr>]\<rparr>" 0 _
      "\<lparr>elapsed = 1000000, others = [], waiting = 0\<rparr>" "[]" 0]
  have 3: "try_acquire_until 3 7
       \<lparr>now = 9, wakes = [\<lparr>elapsed = 1000000, others = [], waiting = 0\<rparr>]\<rparr>
       \<lparr>m_count = 0, m_cv = 0, m_lock = False\<rparr>
     = Returned False \<lparr>now = 9, wakes = []\<rparr> \<lparr>m_count = 0, m_cv = 0, m_lock = False\<rparr>"
    by simp
  from 1 2 3 show ?thesis
    by simp
qed

section \<open>\<^verbatim>\<open>try_acquire_for\<close>\<close>

lemma count_seen_0: "count_seen L c ws 0 = Some c"
  by (simp add: count_seen_def)

lemma count_seen_Suc:
  "others_update L (others w) c = Some c1 \<Longrightarrow>
     count_seen L c (w # ws) (Suc k) = count_seen L c1 ws k"
  by (simp add: count_seen_def others_update_append)

lemma count_seen_Suc_None:
  "others_update L (others w) c = None \<Longrightarrow> count_seen L c (w # ws) (Suc k) = None"
  by (simp add: count_seen_def others_update_append)

lemma clock_seen_0: "clock_seen t ws 0 = t"
  by (simp add: clock_seen_def)

lemma clock_seen_Suc: "clock_seen t (w # ws) (Suc k) = clock_seen (t + int (elapsed w)) ws k"
  by (simp add: clock_seen_def)

lemma clock_seen_ge: "t \<le> clock_seen t ws k"
  by (simp add: clock_seen_def)

lemma no_permit_before_iff:
  "no_permit_before L d t c ws k \<longleftrightarrow>
     (\<forall>j<k. \<exists>cj. count_seen L c ws j = Some cj \<and> cj \<le> 0) \<and>
     (\<forall>j. 0 < j \<and> j < k \<longrightarrow> clock_seen t ws j < d)"
proof -
  have "(case x of None \<Rightarrow> False | Some cj \<Rightarrow> cj \<le> 0) \<longleftrightarrow> (\<exists>cj. x = Some cj \<and> cj \<le> 0)"
    for x :: "int option"
    by (cases x) simp_all
  moreover have "(\<forall>j \<in> set [1..<k]. P j) \<longleftrightarrow> (\<forall>j. 0 < j \<and> j < k \<longrightarrow> P j)" for P
    by (auto simp: Suc_le_eq)
  moreover have "(\<forall>j \<in> set [0..<k]. P j) \<longleftrightarrow> (\<forall>j<k. P j)" for P
    by auto
  ultimately show ?thesis
    by (simp only: no_permit_before_def list_all_iff)
qed

lemma no_permit_before_0: "no_permit_before L d t c ws 0"
  by (simp add: no_permit_before_def)

lemma no_permit_before_1: "no_permit_before L d t c ws (Suc 0) \<longleftrightarrow> c \<le> 0"
  by (simp add: no_permit_before_def count_seen_0)

lemma no_permit_before_first:
  assumes "no_permit_before L d t c ws (Suc k)"
  shows "c \<le> 0"
  using assms count_seen_0 [of L c ws] unfolding no_permit_before_iff by force

lemma no_permit_before_second:
  assumes "no_permit_before L d t c (w # ws) (Suc (Suc k))"
  shows "t + int (elapsed w) < d"
proof -
  from assms have "clock_seen t (w # ws) (Suc 0) < d"
    unfolding no_permit_before_iff by simp
  then show ?thesis
    by (simp add: clock_seen_Suc clock_seen_0)
qed

lemma no_permit_before_tail:
  assumes "no_permit_before L d t c (w # ws) (Suc k)"
    and u: "others_update L (others w) c = Some c1"
  shows "no_permit_before L d (t + int (elapsed w)) c1 ws k"
  unfolding no_permit_before_iff
proof (intro conjI allI impI)
  fix j
  assume "j < k"
  then have "Suc j < Suc k"
    by simp
  with assms(1) obtain cj where "count_seen L c (w # ws) (Suc j) = Some cj" "cj \<le> 0"
    unfolding no_permit_before_iff by blast
  then show "\<exists>cj. count_seen L c1 ws j = Some cj \<and> cj \<le> 0"
    by (simp add: count_seen_Suc [OF u])
next
  fix j
  assume "0 < j \<and> j < k"
  then have "0 < Suc j \<and> Suc j < Suc k"
    by simp
  with assms(1) have "clock_seen t (w # ws) (Suc j) < d"
    unfolding no_permit_before_iff by blast
  then show "clock_seen (t + int (elapsed w)) ws j < d"
    by (simp add: clock_seen_Suc)
qed

lemma no_permit_before_Cons:
  assumes "no_permit_before L d (t + int (elapsed w)) c1 ws k"
    and u: "others_update L (others w) c = Some c1"
    and "c \<le> 0" and "t + int (elapsed w) < d"
  shows "no_permit_before L d t c (w # ws) (Suc k)"
  unfolding no_permit_before_iff
proof (intro conjI allI impI)
  fix j
  assume j: "j < Suc k"
  show "\<exists>cj. count_seen L c (w # ws) j = Some cj \<and> cj \<le> 0"
  proof (cases j)
    case 0
    with assms(3) show ?thesis
      by (simp add: count_seen_0)
  next
    case (Suc i)
    with j have "i < k"
      by simp
    with assms(1) obtain cj where "count_seen L c1 ws i = Some cj" "cj \<le> 0"
      unfolding no_permit_before_iff by blast
    with Suc show ?thesis
      by (simp add: count_seen_Suc [OF u])
  qed
next
  fix j
  assume j: "0 < j \<and> j < Suc k"
  then obtain i where i: "j = Suc i" "i < k"
    by (cases j) auto
  show "clock_seen t (w # ws) j < d"
  proof (cases i)
    case 0
    with i assms(4) show ?thesis
      by (simp add: clock_seen_Suc clock_seen_0)
  next
    case (Suc i')
    with i assms(1) have "clock_seen (t + int (elapsed w)) ws i < d"
      unfolding no_permit_before_iff by simp
    with i show ?thesis
      by (simp add: clock_seen_Suc)
  qed
qed

lemma cv_wait_until_step:
  assumes "owns lock"
  shows "cv_wait_until L lock d th s =
     (case wakes th of
        [] \<Rightarrow> Returned timeout (th\<lparr>now := max (now th) d\<rparr>) (s\<lparr>m_lock := True\<rparr>)
      | w # ws \<Rightarrow>
          (case others_update L (others w) (m_count s) of
             None \<Rightarrow> Undefined
           | Some c \<Rightarrow>
               Returned (if now th + int (elapsed w) < d then no_timeout else timeout)
                 (th\<lparr>now := min (now th + int (elapsed w)) (max (now th) d), wakes := ws\<rparr>)
                 (s\<lparr>m_count := c, m_cv := waiting w, m_lock := True\<rparr>)))"
proof -
  have "s\<lparr>m_cv := m_cv s + 1 - 1, m_lock := True\<rparr> = s\<lparr>m_lock := True\<rparr>"
    by simp
  moreover have "min (now th + int e) (max (now th) d) < d \<longleftrightarrow> now th + int e < d" for e
    by auto
  ultimately show ?thesis
    using assms
    by (simp add: cv_wait_until_def seq_def suspend_until_def split: list.splits option.splits)
qed

lemma cv_wait_until_pred_not_Blocked:
  "owns lock \<Longrightarrow> cv_wait_until_pred L lock d pred th s \<noteq> Blocked s'"
proof (induction L lock d pred th s rule: cv_wait_until_pred.induct)
  case (1 L lock d pred th s)
  show ?case
  proof (cases "pred s")
    case True
    then show ?thesis
      by (simp add: cv_wait_until_pred.simps [of L lock d pred th s])
  next
    case False
    show ?thesis
    proof (cases "cv_wait_until L lock d th s")
      case (Returned st th1 s1)
      show ?thesis
      proof (cases "st = timeout")
        case True
        with False Returned show ?thesis
          by (simp add: cv_wait_until_pred.simps [of L lock d pred th s])
      next
        case no: False
        from "1.IH" [OF False Returned no "1.prems"] False Returned no show ?thesis
          by (simp add: cv_wait_until_pred.simps [of L lock d pred th s])
      qed
    next
      case (Blocked b)
      with "1.prems" show ?thesis
        by (simp add: cv_wait_until_step split: list.splits option.splits)
    qed (simp_all add: cv_wait_until_pred.simps [of L lock d pred th s] False)
  qed
qed

lemma cv_wait_until_pred_look:
  "owns lock \<Longrightarrow> pred = count_positive \<Longrightarrow>
   cv_wait_until_pred L lock d pred th s = Returned b th' s' \<Longrightarrow>
     \<exists>k \<le> length (wakes th).
        wakes th' = drop k (wakes th) \<and>
        count_seen L (m_count s) (wakes th) k = Some (m_count s') \<and>
        b = (0 < m_count s') \<and>
        no_permit_before L d (now th) (m_count s) (wakes th) k \<and>
        now th' = (if b then min (clock_seen (now th) (wakes th) k) (max (now th) d)
                   else max (now th) d)"
proof (induction L lock d pred th s rule: cv_wait_until_pred.induct)
  case (1 L lock d pred th s)
  note pred = \<open>pred = count_positive\<close>
  note ret = \<open>cv_wait_until_pred L lock d pred th s = Returned b th' s'\<close> [unfolded pred]
  note owns = \<open>owns lock\<close>
  show ?case
  proof (cases "0 < m_count s")
    case True
    with ret have "b" "th' = th" "s' = s"
      by (simp_all add: cv_wait_until_pred.simps [of L lock d count_positive th s]
          count_positive_def)
    with True show ?thesis
      by (intro exI [of _ 0]) (simp add: count_seen_0 no_permit_before_0 clock_seen_0)
  next
    case False
    then have np: "\<not> count_positive s" and c0: "m_count s \<le> 0"
      by (simp_all add: count_positive_def)
    from np have np': "\<not> pred s"
      by (simp add: pred)
    show ?thesis
    proof (cases "wakes th")
      case Nil
      with ret owns np have "\<not> b" "th' = th\<lparr>now := max (now th) d\<rparr>" "s' = s\<lparr>m_lock := True\<rparr>"
        by (simp_all add: cv_wait_until_pred.simps [of L lock d count_positive th s]
            cv_wait_until_step count_positive_def)
      with Nil c0 show ?thesis
        by (intro exI [of _ 0]) (simp add: count_seen_0 no_permit_before_0)
    next
      case (Cons w ws)
      from ret owns np Cons obtain c1 where
        u: "others_update L (others w) (m_count s) = Some c1"
        by (auto simp: cv_wait_until_pred.simps [of L lock d count_positive th s]
            cv_wait_until_step split: option.splits)
      let ?th1 = "th\<lparr>now := min (now th + int (elapsed w)) (max (now th) d), wakes := ws\<rparr>"
      let ?s1 = "s\<lparr>m_count := c1, m_cv := waiting w, m_lock := True\<rparr>"
      show ?thesis
      proof (cases "now th + int (elapsed w) < d")
        case True
        then have st: "cv_wait_until L lock d th s = Returned no_timeout ?th1 ?s1"
          using owns Cons u by (simp add: cv_wait_until_step)
        with ret np have "cv_wait_until_pred L lock d count_positive ?th1 ?s1
            = Returned b th' s'"
          by (simp add: cv_wait_until_pred.simps [of L lock d count_positive th s])
        then have r: "cv_wait_until_pred L lock d pred ?th1 ?s1 = Returned b th' s'"
          by (simp only: pred)
        have nt: "no_timeout \<noteq> timeout"
          by simp
        from "1.IH" [OF np' st nt owns pred r]
        obtain k where kk: "k \<le> length (wakes ?th1) \<and>
            wakes th' = drop k (wakes ?th1) \<and>
            count_seen L (m_count ?s1) (wakes ?th1) k = Some (m_count s') \<and>
            b = (0 < m_count s') \<and>
            no_permit_before L d (now ?th1) (m_count ?s1) (wakes ?th1) k \<and>
            now th' = (if b then min (clock_seen (now ?th1) (wakes ?th1) k) (max (now ?th1) d)
                       else max (now ?th1) d)" ..
        have sel: "wakes ?th1 = ws" "m_count ?s1 = c1"
          by simp_all
        note k = kk [THEN conjunct1, unfolded sel]
          kk [THEN conjunct2, THEN conjunct1, unfolded sel]
          kk [THEN conjunct2, THEN conjunct2, THEN conjunct1, unfolded sel]
          kk [THEN conjunct2, THEN conjunct2, THEN conjunct2, THEN conjunct1]
          kk [THEN conjunct2, THEN conjunct2, THEN conjunct2, THEN conjunct2, THEN conjunct1,
            unfolded sel]
          kk [THEN conjunct2, THEN conjunct2, THEN conjunct2, THEN conjunct2, THEN conjunct2,
            unfolded sel]
        from True have n1: "now ?th1 = now th + int (elapsed w)"
          by simp
        from True have m: "max (now th + int (elapsed w)) d = d" "max (now th) d = d"
          by simp_all
        from k(5) [unfolded n1] u c0 True
        have np': "no_permit_before L d (now th) (m_count s) (w # ws) (Suc k)"
          by (rule no_permit_before_Cons)
        from k(6) [unfolded n1]
        have t': "now th' = (if b then min (clock_seen (now th) (w # ws) (Suc k))
              (max (now th) d) else max (now th) d)"
          by (simp add: clock_seen_Suc m)
        from k(3) u have c': "count_seen L (m_count s) (w # ws) (Suc k) = Some (m_count s')"
          by (simp only: count_seen_Suc)
        from k(1) have "Suc k \<le> length (w # ws)"
          by simp
        moreover from k(2) have "wakes th' = drop (Suc k) (w # ws)"
          by simp
        ultimately have "Suc k \<le> length (wakes th) \<and>
            wakes th' = drop (Suc k) (wakes th) \<and>
            count_seen L (m_count s) (wakes th) (Suc k) = Some (m_count s') \<and>
            b = (0 < m_count s') \<and>
            no_permit_before L d (now th) (m_count s) (wakes th) (Suc k) \<and>
            now th' = (if b then min (clock_seen (now th) (wakes th) (Suc k)) (max (now th) d)
                       else max (now th) d)"
          unfolding Cons using c' k(4) np' t' by (intro conjI)
        then show ?thesis
          by (rule exI)
      next
        case False
        then have st: "cv_wait_until L lock d th s = Returned timeout ?th1 ?s1"
          using owns Cons u by (simp add: cv_wait_until_step)
        with ret np have r: "b = (0 < c1)" "th' = ?th1" "s' = ?s1"
          by (auto simp: cv_wait_until_pred.simps [of L lock d count_positive th s]
              count_positive_def)
        from False have t: "min (now th + int (elapsed w)) (max (now th) d) = max (now th) d"
          by simp
        have "clock_seen (now th) (w # ws) (Suc 0) = now th + int (elapsed w)"
          by (simp add: clock_seen_Suc clock_seen_0)
        with r t Cons u c0 show ?thesis
          by (intro exI [of _ "Suc 0"])
             (simp add: count_seen_Suc count_seen_0 no_permit_before_1)
      qed
    qed
  qed
qed

lemma first_permit_Returned:
  "owns lock \<Longrightarrow> first_permit L d (now th) (m_count s) (wakes th) k \<Longrightarrow>
     \<exists>th' s'. cv_wait_until_pred L lock d count_positive th s = Returned True th' s'"
proof (induction k arbitrary: th s)
  case 0
  then have "count_positive s"
    by (simp add: first_permit_def count_seen_0 count_positive_def)
  then show ?case
    by (simp add: cv_wait_until_pred_now)
next
  case (Suc k)
  from Suc.prems(2) have len: "Suc k \<le> length (wakes th)"
    and np: "no_permit_before L d (now th) (m_count s) (wakes th) (Suc k)"
    and pos: "case count_seen L (m_count s) (wakes th) (Suc k) of None \<Rightarrow> False | Some ck \<Rightarrow> 0 < ck"
    by (simp_all add: first_permit_def)
  from np have c0: "m_count s \<le> 0"
    by (rule no_permit_before_first)
  then have npred: "\<not> count_positive s"
    by (simp add: count_positive_def)
  from len obtain w ws where ws: "wakes th = w # ws"
    by (cases "wakes th") auto
  from pos ws obtain c1 where u: "others_update L (others w) (m_count s) = Some c1"
    by (cases "others_update L (others w) (m_count s)") (simp_all add: count_seen_Suc_None)
  let ?th1 = "th\<lparr>now := min (now th + int (elapsed w)) (max (now th) d), wakes := ws\<rparr>"
  let ?s1 = "s\<lparr>m_count := c1, m_cv := waiting w, m_lock := True\<rparr>"
  from pos ws u have pos1: "case count_seen L c1 ws k of None \<Rightarrow> False | Some ck \<Rightarrow> 0 < ck"
    by (simp add: count_seen_Suc)
  show ?case
  proof (cases "now th + int (elapsed w) < d")
    case True
    with Suc.prems(1) ws u have st: "cv_wait_until L lock d th s = Returned no_timeout ?th1 ?s1"
      by (simp add: cv_wait_until_step)
    from True have n1: "now ?th1 = now th + int (elapsed w)"
      by simp
    from np [unfolded ws] u have "no_permit_before L d (now th + int (elapsed w)) c1 ws k"
      by (rule no_permit_before_tail)
    with len ws pos1 have "first_permit L d (now ?th1) (m_count ?s1) (wakes ?th1) k"
      unfolding n1 by (simp add: first_permit_def)
    from Suc.IH [OF Suc.prems(1) this] obtain th' s' where
      "cv_wait_until_pred L lock d count_positive ?th1 ?s1 = Returned True th' s'"
      by blast
    with st npred show ?thesis
      by (simp add: cv_wait_until_pred.simps [of L lock d count_positive th s])
  next
    case False
    with Suc.prems(1) ws u have st: "cv_wait_until L lock d th s = Returned timeout ?th1 ?s1"
      by (simp add: cv_wait_until_step)
    have "k = 0"
    proof (rule ccontr)
      assume "k \<noteq> 0"
      then obtain k' where "k = Suc k'"
        by (cases k) auto
      with np ws have "now th + int (elapsed w) < d"
        by (auto dest: no_permit_before_second)
      with False show False
        by simp
    qed
    with pos1 have "count_positive ?s1"
      by (simp add: count_seen_0 count_positive_def)
    with st npred show ?thesis
      by (simp add: cv_wait_until_pred.simps [of L lock d count_positive th s])
  qed
qed

lemma count_seen_in_bounds:
  "count_seen L c ws k = Some c' \<Longrightarrow> 0 \<le> c \<and> c \<le> L \<Longrightarrow> 0 \<le> c' \<and> c' \<le> L"
  unfolding count_seen_def by (rule others_update_in_bounds)

lemma count_seen_undisturbed:
  "\<forall>w \<in> set ws. others w = [] \<Longrightarrow> count_seen L c ws k = Some c"
proof -
  assume "\<forall>w \<in> set ws. others w = []"
  then have "\<forall>w \<in> set (take k ws). others w = []"
    by (auto dest: in_set_takeD)
  then have "concat (map others (take k ws)) = []"
    by simp
  then show ?thesis
    by (simp only: count_seen_def others_update.simps)
qed

lemma try_acquire_for_in_bounds_run:
  assumes ctor: "unique_lock_ctor L th s = Returned lock th1 s1"
    and b: "in_bounds L s1" and L: "ptrdiff L" and rep: "clock_rep (now th1 + rel_time)"
  shows "try_acquire_for L rel_time th s =
     (case cv_wait_until_pred L lock (now th1 + rel_time) count_positive th1 s1 of
        Returned ok th2 s2 \<Rightarrow>
          if ok then Returned True th2 (s2\<lparr>m_count := m_count s2 - 1, m_lock := False\<rparr>)
          else Returned False th2 (s2\<lparr>m_lock := False\<rparr>)
      | Blocked s' \<Rightarrow> Blocked s'
      | Thrown e \<Rightarrow> Thrown e
      | Terminated \<Rightarrow> Terminated
      | Undefined \<Rightarrow> Undefined)"
proof -
  from rep have w: "cv_wait_for_pred L lock rel_time count_positive th1 s1
      = cv_wait_until_pred L lock (now th1 + rel_time) count_positive th1 s1"
    by (simp add: cv_wait_for_pred_def add_ticks_def)
  show ?thesis
  proof (cases "cv_wait_until_pred L lock (now th1 + rel_time) count_positive th1 s1")
    case (Returned ok th2 s2)
    with b have b2: "in_bounds L s2"
      by (auto dest: cv_wait_until_pred_in_bounds)
    from Returned have ok: "ok = (0 < m_count s2)"
      by (auto dest: cv_wait_until_pred_holds simp: count_positive_def)
    have "decrement_count L (m_count s2) = Some (m_count s2 - 1)" if "ok"
      using that ok b2 L by (intro decrement_count_value) (simp_all add: in_bounds_def)
    with Returned show ?thesis
      by (simp add: try_acquire_for_run [OF ctor] w)
  qed (simp_all add: try_acquire_for_run [OF ctor] w)
qed

text \<open>
  C6, as stated, fails when the permit arrives after the timeout has elapsed. A
  \<^verbatim>\<open>try_acquire_for\<close> with duration 0 finds the counter at 0, so the timeout has elapsed
  with no permit; while its timed wait has dropped the mutex another thread calls
  \<^verbatim>\<open>release(1)\<close>; the wait reports the timeout, \<^verbatim>\<open>wait_for\<close> returns what the predicate
  says then, and the call takes the permit and returns \<^verbatim>\<open>true\<close>.
\<close>

theorem try_acquire_for_after_timeout_counterexample:
  "\<not> count_positive (counting_semaphore 0) \<and>
   try_acquire_for 1 0
       \<lparr>now = 0, wakes = [\<lparr>elapsed = 1, others = [1], waiting = 0\<rparr>]\<rparr> (counting_semaphore 0)
     = Returned True \<lparr>now = 0, wakes = []\<rparr> \<lparr>m_count = 0, m_cv = 0, m_lock = False\<rparr>"
  by (simp add: run_defs)

text \<open>
  C6, amended. Let \<^verbatim>\<open>try_acquire_for\<close> have the mutex at time \<open>t\<close>, in a state within the
  bounds, with \<open>t + rel_time\<close> representable. The call does not stay blocked, and it returns
  if no update of another thread overflows. It returns \<^verbatim>\<open>true\<close> exactly when one of its
  looks at the counter is the first to find a permit: the look on entry (then it returns
  at once), a look after a resumption before the deadline, or the one look it takes when a
  resumption comes at the deadline or after it. It then returns at the time of that look,
  no later than the deadline unless that had passed at the call, with the counter that the
  look found decremented by 1. When it returns \<^verbatim>\<open>false\<close>, it does so at the deadline (at
  once, if that had passed), no look has found a permit, and the counter is what the other
  threads have left: the call has not written it, and with no update of another thread it
  is as it was.
\<close>

theorem try_acquire_for_result:
  assumes ctor: "unique_lock_ctor L th s = Returned lock th1 s1"
    and b: "in_bounds L s1" and L: "ptrdiff L" and rep: "clock_rep (now th1 + rel_time)"
  shows
   "(\<forall>s'. try_acquire_for L rel_time th s \<noteq> Blocked s') \<and>
    (thread_fits L th1 \<longrightarrow> (\<exists>r th' s'. try_acquire_for L rel_time th s = Returned r th' s')) \<and>
    ((\<exists>th' s'. try_acquire_for L rel_time th s = Returned True th' s') \<longleftrightarrow>
       (\<exists>k. first_permit L (now th1 + rel_time) (now th1) (m_count s1) (wakes th1) k)) \<and>
    (0 < m_count s1 \<longrightarrow>
       try_acquire_for L rel_time th s =
         Returned True th1 (s1\<lparr>m_count := m_count s1 - 1, m_lock := False\<rparr>)) \<and>
    (\<forall>th' s'. try_acquire_for L rel_time th s = Returned True th' s' \<longrightarrow>
       (\<exists>k c. first_permit L (now th1 + rel_time) (now th1) (m_count s1) (wakes th1) k \<and>
          count_seen L (m_count s1) (wakes th1) k = Some c \<and> m_count s' = c - 1 \<and>
          wakes th' = drop k (wakes th1) \<and>
          now th' = min (clock_seen (now th1) (wakes th1) k)
                      (max (now th1) (now th1 + rel_time)))) \<and>
    (\<forall>th' s'. try_acquire_for L rel_time th s = Returned False th' s' \<longrightarrow>
       now th' = max (now th1) (now th1 + rel_time) \<and>
       (\<exists>k \<le> length (wakes th1).
          no_permit_before L (now th1 + rel_time) (now th1) (m_count s1) (wakes th1) k \<and>
          count_seen L (m_count s1) (wakes th1) k = Some (m_count s') \<and> m_count s' \<le> 0 \<and>
          wakes th' = drop k (wakes th1))) \<and>
    (\<forall>th' s'. (\<forall>w \<in> set (wakes th1). others w = []) \<and>
       try_acquire_for L rel_time th s = Returned False th' s' \<longrightarrow> m_count s' = m_count s1)"
proof -
  let ?d = "now th1 + rel_time"
  let ?wait = "cv_wait_until_pred L lock ?d count_positive th1 s1"
  note run = try_acquire_for_in_bounds_run [OF ctor b L rep]
  from ctor have o: "owns lock"
    by (simp add: unique_lock_ctor_owns)
  have look: "\<exists>k \<le> length (wakes th1).
        wakes th2 = drop k (wakes th1) \<and>
        count_seen L (m_count s1) (wakes th1) k = Some (m_count s2) \<and>
        ok = (0 < m_count s2) \<and>
        no_permit_before L ?d (now th1) (m_count s1) (wakes th1) k \<and>
        now th2 = (if ok then min (clock_seen (now th1) (wakes th1) k) (max (now th1) ?d)
                   else max (now th1) ?d)"
    if "?wait = Returned ok th2 s2" for ok th2 s2
    using o _ that by (rule cv_wait_until_pred_look) simp
  have true: "\<exists>s2. ?wait = Returned True th' s2 \<and> m_count s' = m_count s2 - 1"
    if "try_acquire_for L rel_time th s = Returned True th' s'" for th' s'
    using that unfolding run by (cases ?wait) (auto split: if_splits)
  have false: "\<exists>s2. ?wait = Returned False th' s2 \<and> m_count s' = m_count s2"
    if "try_acquire_for L rel_time th s = Returned False th' s'" for th' s'
    using that unfolding run by (cases ?wait) (auto split: if_splits)
  have 1: "\<forall>s'. try_acquire_for L rel_time th s \<noteq> Blocked s'"
    using cv_wait_until_pred_not_Blocked [OF o, of L ?d count_positive th1 s1]
    unfolding run by (cases ?wait) auto
  have 2: "thread_fits L th1 \<longrightarrow> (\<exists>r th' s'. try_acquire_for L rel_time th s = Returned r th' s')"
  proof
    assume "thread_fits L th1"
    with b o have "sound L False ?wait"
      by (intro cv_wait_until_pred_sound)
    with cv_wait_until_pred_not_Blocked [OF o, of L ?d count_positive th1 s1]
    show "\<exists>r th' s'. try_acquire_for L rel_time th s = Returned r th' s'"
      unfolding run by (cases ?wait) auto
  qed
  have 3: "(\<exists>th' s'. try_acquire_for L rel_time th s = Returned True th' s') \<longleftrightarrow>
       (\<exists>k. first_permit L ?d (now th1) (m_count s1) (wakes th1) k)"
  proof
    assume "\<exists>th' s'. try_acquire_for L rel_time th s = Returned True th' s'"
    then obtain th' s2 where "?wait = Returned True th' s2"
      using true by blast
    from look [OF this] show "\<exists>k. first_permit L ?d (now th1) (m_count s1) (wakes th1) k"
      by (auto simp: first_permit_def)
  next
    assume "\<exists>k. first_permit L ?d (now th1) (m_count s1) (wakes th1) k"
    then obtain k where "first_permit L ?d (now th1) (m_count s1) (wakes th1) k" ..
    with o obtain th' s2 where "?wait = Returned True th' s2"
      using first_permit_Returned by blast
    then show "\<exists>th' s'. try_acquire_for L rel_time th s = Returned True th' s'"
      unfolding run by simp
  qed
  have 4: "0 < m_count s1 \<longrightarrow>
       try_acquire_for L rel_time th s =
         Returned True th1 (s1\<lparr>m_count := m_count s1 - 1, m_lock := False\<rparr>)"
    unfolding run by (simp add: cv_wait_until_pred_now count_positive_def)
  have 5: "\<forall>th' s'. try_acquire_for L rel_time th s = Returned True th' s' \<longrightarrow>
       (\<exists>k c. first_permit L ?d (now th1) (m_count s1) (wakes th1) k \<and>
          count_seen L (m_count s1) (wakes th1) k = Some c \<and> m_count s' = c - 1 \<and>
          wakes th' = drop k (wakes th1) \<and>
          now th' = min (clock_seen (now th1) (wakes th1) k) (max (now th1) ?d))"
  proof (intro allI impI)
    fix th' s'
    assume "try_acquire_for L rel_time th s = Returned True th' s'"
    with true obtain s2 where w: "?wait = Returned True th' s2" and c: "m_count s' = m_count s2 - 1"
      by blast
    from look [OF w] c
    show "\<exists>k c. first_permit L ?d (now th1) (m_count s1) (wakes th1) k \<and>
          count_seen L (m_count s1) (wakes th1) k = Some c \<and> m_count s' = c - 1 \<and>
          wakes th' = drop k (wakes th1) \<and>
          now th' = min (clock_seen (now th1) (wakes th1) k) (max (now th1) ?d)"
      by (auto simp: first_permit_def)
  qed
  have 6: "\<forall>th' s'. try_acquire_for L rel_time th s = Returned False th' s' \<longrightarrow>
       now th' = max (now th1) ?d \<and>
       (\<exists>k \<le> length (wakes th1).
          no_permit_before L ?d (now th1) (m_count s1) (wakes th1) k \<and>
          count_seen L (m_count s1) (wakes th1) k = Some (m_count s') \<and> m_count s' \<le> 0 \<and>
          wakes th' = drop k (wakes th1))"
  proof (intro allI impI)
    fix th' s'
    assume "try_acquire_for L rel_time th s = Returned False th' s'"
    with false obtain s2 where w: "?wait = Returned False th' s2" and c: "m_count s' = m_count s2"
      by blast
    from look [OF w] c
    show "now th' = max (now th1) ?d \<and>
       (\<exists>k \<le> length (wakes th1).
          no_permit_before L ?d (now th1) (m_count s1) (wakes th1) k \<and>
          count_seen L (m_count s1) (wakes th1) k = Some (m_count s') \<and> m_count s' \<le> 0 \<and>
          wakes th' = drop k (wakes th1))"
      by auto
  qed
  have 7: "\<forall>th' s'. (\<forall>w \<in> set (wakes th1). others w = []) \<and>
       try_acquire_for L rel_time th s = Returned False th' s' \<longrightarrow> m_count s' = m_count s1"
  proof (intro allI impI)
    fix th' s'
    assume a: "(\<forall>w \<in> set (wakes th1). others w = []) \<and>
       try_acquire_for L rel_time th s = Returned False th' s'"
    with 6 obtain k where "count_seen L (m_count s1) (wakes th1) k = Some (m_count s')"
      by blast
    moreover from a have "count_seen L (m_count s1) (wakes th1) k = Some (m_count s1)"
      by (intro count_seen_undisturbed) simp
    ultimately show "m_count s' = m_count s1"
      by simp
  qed
  from 1 2 3 4 5 6 7 show ?thesis
    by (intro conjI)
qed

theorem try_acquire_for_result_witness:
  "in_bounds 2 \<lparr>m_count = 0, m_cv = 0, m_lock = True\<rparr> \<and> ptrdiff 2 \<and> clock_rep (0 + 10) \<and>
   first_permit 2 (0 + 10) 0 0
     [\<lparr>elapsed = 4, others = [], waiting = 1\<rparr>, \<lparr>elapsed = 3, others = [1], waiting = 0\<rparr>] 2 \<and>
   try_acquire_for 2 10
       \<lparr>now = 0, wakes = [\<lparr>elapsed = 4, others = [], waiting = 1\<rparr>,
                           \<lparr>elapsed = 3, others = [1], waiting = 0\<rparr>]\<rparr>
       \<lparr>m_count = 0, m_cv = 0, m_lock = False\<rparr>
     = Returned True \<lparr>now = 7, wakes = []\<rparr> \<lparr>m_count = 0, m_cv = 0, m_lock = False\<rparr> \<and>
   try_acquire_for 2 10 \<lparr>now = 0, wakes = []\<rparr> \<lparr>m_count = 0, m_cv = 0, m_lock = False\<rparr>
     = Returned False \<lparr>now = 10, wakes = []\<rparr> \<lparr>m_count = 0, m_cv = 0, m_lock = False\<rparr> \<and>
   try_acquire_for 2 10 \<lparr>now = 0, wakes = []\<rparr> \<lparr>m_count = 1, m_cv = 0, m_lock = False\<rparr>
     = Returned True \<lparr>now = 0, wakes = []\<rparr> \<lparr>m_count = 0, m_cv = 0, m_lock = False\<rparr>"
proof -
  let ?ws = "[\<lparr>elapsed = 4, others = [], waiting = 1\<rparr>, \<lparr>elapsed = 3, others = [1], waiting = 0\<rparr>]"
  have ctor: "unique_lock_ctor 2 t \<lparr>m_count = c, m_cv = 0, m_lock = False\<rparr>
      = Returned \<lparr>owns = True\<rparr> t \<lparr>m_count = c, m_cv = 0, m_lock = True\<rparr>" for c t
    by (simp add: unique_lock_ctor_free)
  have b: "in_bounds 2 \<lparr>m_count = c, m_cv = 0, m_lock = True\<rparr>" if "0 \<le> c" "c \<le> 2" for c
    using that by (simp add: in_bounds_def)
  have L: "ptrdiff 2"
    by (simp add: ptrdiff_def PTRDIFF_MIN_def PTRDIFF_MAX_def)
  have rep: "clock_rep (0 + 10)"
    by (simp add: clock_rep_def)
  have fp: "first_permit 2 (0 + 10) 0 0 ?ws 2"
    by (simp add: first_permit_def no_permit_before_def count_seen_def clock_seen_def
        add_count_def add_ptrdiff_def ptrdiff_def PTRDIFF_MIN_def PTRDIFF_MAX_def clamp_def
        upt_rec)
  note waited = try_acquire_for_result [of 2 "\<lparr>now = 0, wakes = ?ws\<rparr>"
      "\<lparr>m_count = 0, m_cv = 0, m_lock = False\<rparr>" "\<lparr>owns = True\<rparr>" "\<lparr>now = 0, wakes = ?ws\<rparr>"
      "\<lparr>m_count = 0, m_cv = 0, m_lock = True\<rparr>" 10, OF ctor]
  note alone = try_acquire_for_result [of 2 "\<lparr>now = 0, wakes = []\<rparr>"
      "\<lparr>m_count = 1, m_cv = 0, m_lock = False\<rparr>" "\<lparr>owns = True\<rparr>" "\<lparr>now = 0, wakes = []\<rparr>"
      "\<lparr>m_count = 1, m_cv = 0, m_lock = True\<rparr>" 10, OF ctor]
  from waited b [of 0] L rep fp
  have "\<exists>th' s'. try_acquire_for 2 10 \<lparr>now = 0, wakes = ?ws\<rparr>
      \<lparr>m_count = 0, m_cv = 0, m_lock = False\<rparr> = Returned True th' s'"
    by simp blast
  moreover have "try_acquire_for 2 10 \<lparr>now = 0, wakes = ?ws\<rparr>
       \<lparr>m_count = 0, m_cv = 0, m_lock = False\<rparr>
     = Returned True \<lparr>now = 7, wakes = []\<rparr> \<lparr>m_count = 0, m_cv = 0, m_lock = False\<rparr>"
    by (simp add: run_defs)
  moreover have "try_acquire_for 2 10 \<lparr>now = 0, wakes = []\<rparr> \<lparr>m_count = 0, m_cv = 0, m_lock = False\<rparr>
     = Returned False \<lparr>now = 10, wakes = []\<rparr> \<lparr>m_count = 0, m_cv = 0, m_lock = False\<rparr>"
    by (simp add: run_defs)
  moreover from alone b [of 1] L rep
  have "try_acquire_for 2 10 \<lparr>now = 0, wakes = []\<rparr> \<lparr>m_count = 1, m_cv = 0, m_lock = False\<rparr>
     = Returned True \<lparr>now = 0, wakes = []\<rparr> \<lparr>m_count = 0, m_cv = 0, m_lock = False\<rparr>"
    by simp
  ultimately show ?thesis
    using b [of 0] L rep fp by simp
qed

section \<open>Releases followed by as many acquires\<close>

lemma release_one_free:
  assumes "0 \<le> c" and "c + 1 \<le> L" and "ptrdiff L"
  shows "release L 1 th \<lparr>m_count = c, m_cv = 0, m_lock = False\<rparr>
           = Returned () th \<lparr>m_count = c + 1, m_cv = 0, m_lock = False\<rparr>"
proof -
  from assms have "add_count L c 1 = Some (c + 1)"
    by (auto simp: add_count_def add_ptrdiff_def clamp_def ptrdiff_def PTRDIFF_MIN_def)
  then show ?thesis
    by (simp add: release_with_lock [OF unique_lock_ctor_free])
qed

lemma acquire_one_free:
  assumes "0 < c" and "c \<le> L" and "ptrdiff L"
  shows "acquire L th \<lparr>m_count = c, m_cv = 0, m_lock = False\<rparr>
           = Returned () th \<lparr>m_count = c - 1, m_cv = 0, m_lock = False\<rparr>"
proof -
  from assms have "decrement_count L c = Some (c - 1)"
    by (intro decrement_count_value) simp_all
  with assms(1) show ?thesis
    by (simp add: acquire_with_lock [OF unique_lock_ctor_free])
qed

lemma releases_return:
  assumes "ptrdiff L"
  shows "0 \<le> c \<Longrightarrow> c + int (length rs) \<le> L \<Longrightarrow>
    \<exists>pre. length pre = length rs \<and>
      last (\<lparr>m_count = c, m_cv = 0, m_lock = False\<rparr> # pre)
        = \<lparr>m_count = c + int (length rs), m_cv = 0, m_lock = False\<rparr> \<and>
      states_after L (map (\<lambda>th. (th, Release 1)) rs @ rest)
          \<lparr>m_count = c, m_cv = 0, m_lock = False\<rparr>
        = pre @ states_after L rest \<lparr>m_count = c + int (length rs), m_cv = 0, m_lock = False\<rparr>"
proof (induction rs arbitrary: c)
  case Nil
  then show ?case by simp
next
  case (Cons th rs)
  from Cons.prems have "0 \<le> c + 1" and "c + 1 + int (length rs) \<le> L"
    by simp_all
  from Cons.IH [OF this] obtain pre where
    pre: "length pre = length rs"
      "last (\<lparr>m_count = c + 1, m_cv = 0, m_lock = False\<rparr> # pre)
        = \<lparr>m_count = c + 1 + int (length rs), m_cv = 0, m_lock = False\<rparr>"
      "states_after L (map (\<lambda>th. (th, Release 1)) rs @ rest)
          \<lparr>m_count = c + 1, m_cv = 0, m_lock = False\<rparr>
        = pre @ states_after L rest \<lparr>m_count = c + 1 + int (length rs), m_cv = 0, m_lock = False\<rparr>"
    by blast
  from Cons.prems assms have step: "release L 1 th \<lparr>m_count = c, m_cv = 0, m_lock = False\<rparr>
           = Returned () th \<lparr>m_count = c + 1, m_cv = 0, m_lock = False\<rparr>"
    by (intro release_one_free) simp_all
  have eq: "c + 1 + int (length rs) = c + int (length (th # rs))"
    by simp
  from pre step show ?case
    unfolding eq
    by (intro exI [of _ "\<lparr>m_count = c + 1, m_cv = 0, m_lock = False\<rparr> # pre"]) simp
qed

lemma acquires_return:
  assumes "ptrdiff L"
  shows "int (length as) \<le> c \<Longrightarrow> c \<le> L \<Longrightarrow>
    \<exists>pre. length pre = length as \<and>
      last (\<lparr>m_count = c, m_cv = 0, m_lock = False\<rparr> # pre)
        = \<lparr>m_count = c - int (length as), m_cv = 0, m_lock = False\<rparr> \<and>
      states_after L (map (\<lambda>th. (th, Acquire)) as @ rest)
          \<lparr>m_count = c, m_cv = 0, m_lock = False\<rparr>
        = pre @ states_after L rest \<lparr>m_count = c - int (length as), m_cv = 0, m_lock = False\<rparr>"
proof (induction as arbitrary: c)
  case Nil
  then show ?case by simp
next
  case (Cons th as)
  from Cons.prems have "int (length as) \<le> c - 1" and "c - 1 \<le> L"
    by simp_all
  from Cons.IH [OF this] obtain pre where
    pre: "length pre = length as"
      "last (\<lparr>m_count = c - 1, m_cv = 0, m_lock = False\<rparr> # pre)
        = \<lparr>m_count = c - 1 - int (length as), m_cv = 0, m_lock = False\<rparr>"
      "states_after L (map (\<lambda>th. (th, Acquire)) as @ rest)
          \<lparr>m_count = c - 1, m_cv = 0, m_lock = False\<rparr>
        = pre @ states_after L rest \<lparr>m_count = c - 1 - int (length as), m_cv = 0, m_lock = False\<rparr>"
    by blast
  from Cons.prems assms have step: "acquire L th \<lparr>m_count = c, m_cv = 0, m_lock = False\<rparr>
           = Returned () th \<lparr>m_count = c - 1, m_cv = 0, m_lock = False\<rparr>"
    by (intro acquire_one_free) simp_all
  have eq: "c - 1 - int (length as) = c - int (length (th # as))"
    by simp
  from pre step show ?case
    unfolding eq
    by (intro exI [of _ "\<lparr>m_count = c - 1, m_cv = 0, m_lock = False\<rparr> # pre"]) simp
qed

text \<open>
  C7. On a semaphore constructed with 0, let \<open>n \<le> LeastMaxValue\<close> threads call
  \<^verbatim>\<open>release(1)\<close> and then \<open>n\<close> threads call \<^verbatim>\<open>acquire\<close>, one call after the other.
  Every one of the \<open>2 n\<close> calls returns, and the semaphore is then as constructed, with the
  counter at 0. No permit is left: a \<^verbatim>\<open>try_acquire_for\<close> with duration 0 at a time \<open>t\<close> of
  the clock's range returns \<^verbatim>\<open>false\<close> at \<open>t\<close>, whether or not it is woken once by a
  notification that brings no update of the counter, and so does a \<^verbatim>\<open>try_acquire_until\<close>
  with the deadline \<open>t\<close>; each leaves the semaphore as constructed.
\<close>

theorem release_acquire_round_trip:
  assumes "length rs = n" and "length as = n" and "int n \<le> L" and "ptrdiff L"
  shows "length (states_after L (map (\<lambda>th. (th, Release 1)) rs @ map (\<lambda>th. (th, Acquire)) as)
                   (counting_semaphore 0)) = 2 * n \<and>
         last (counting_semaphore 0 #
               states_after L (map (\<lambda>th. (th, Release 1)) rs @ map (\<lambda>th. (th, Acquire)) as)
                 (counting_semaphore 0)) = counting_semaphore 0 \<and>
         (clock_rep t \<longrightarrow>
            try_acquire_for L 0 \<lparr>now = t, wakes = [\<lparr>elapsed = e, others = [], waiting = 0\<rparr>]\<rparr>
              (last (counting_semaphore 0 #
                states_after L (map (\<lambda>th. (th, Release 1)) rs @ map (\<lambda>th. (th, Acquire)) as)
                  (counting_semaphore 0)))
            = Returned False \<lparr>now = t, wakes = []\<rparr> (counting_semaphore 0)) \<and>
         (clock_rep t \<longrightarrow>
            try_acquire_for L 0 \<lparr>now = t, wakes = []\<rparr>
              (last (counting_semaphore 0 #
                states_after L (map (\<lambda>th. (th, Release 1)) rs @ map (\<lambda>th. (th, Acquire)) as)
                  (counting_semaphore 0)))
            = Returned False \<lparr>now = t, wakes = []\<rparr> (counting_semaphore 0)) \<and>
         try_acquire_until L t \<lparr>now = t, wakes = []\<rparr>
             (last (counting_semaphore 0 #
               states_after L (map (\<lambda>th. (th, Release 1)) rs @ map (\<lambda>th. (th, Acquire)) as)
                 (counting_semaphore 0)))
           = Returned False \<lparr>now = t, wakes = []\<rparr> (counting_semaphore 0)"
proof -
  let ?s = "\<lambda>c. \<lparr>m_count = c, m_cv = 0, m_lock = False\<rparr>"
  let ?calls = "map (\<lambda>th. (th, Release 1)) rs @ map (\<lambda>th. (th, Acquire)) as"
  from assms releases_return [OF assms(4), of 0 rs "map (\<lambda>th. (th, Acquire)) as"]
  obtain pre1 where
    1: "length pre1 = n" "last (?s 0 # pre1) = ?s (int n)"
       "states_after L ?calls (?s 0)
          = pre1 @ states_after L (map (\<lambda>th. (th, Acquire)) as) (?s (int n))"
    by auto
  from assms acquires_return [OF assms(4), of as "int n" "[]"]
  obtain pre2 where
    2: "length pre2 = n" "last (?s (int n) # pre2) = ?s 0"
       "states_after L (map (\<lambda>th. (th, Acquire)) as) (?s (int n)) = pre2"
    by auto
  from 1 2 have run: "states_after L ?calls (?s 0) = pre1 @ pre2"
    by simp
  have len: "length (states_after L ?calls (counting_semaphore 0)) = 2 * n"
    using run 1(1) 2(1) by (simp add: counting_semaphore_def)
  have "last (?s 0 # pre1 @ pre2) = ?s 0"
  proof (cases "pre2 = []")
    case True
    with 2(1) 1(1) show ?thesis by simp
  next
    case False
    with 2(2) show ?thesis by simp
  qed
  with run have fin: "last (counting_semaphore 0 # states_after L ?calls (counting_semaphore 0))
      = counting_semaphore 0"
    by (simp add: counting_semaphore_def)
  have ctor: "unique_lock_ctor L th (counting_semaphore 0)
      = Returned \<lparr>owns = True\<rparr> th \<lparr>m_count = 0, m_cv = 0, m_lock = True\<rparr>" for th
    by (simp add: unique_lock_ctor_free counting_semaphore_def)
  have wait: "cv_wait_until_pred L \<lparr>owns = True\<rparr> t count_positive \<lparr>now = t, wakes = ws\<rparr>
        \<lparr>m_count = 0, m_cv = 0, m_lock = True\<rparr>
      = Returned False \<lparr>now = t, wakes = []\<rparr> \<lparr>m_count = 0, m_cv = 0, m_lock = True\<rparr>"
    if "ws = [] \<or> ws = [\<lparr>elapsed = e, others = [], waiting = 0\<rparr>]" for ws
    using that by (auto simp: cv_wait_until_pred_past)
  have until: "try_acquire_until L t \<lparr>now = t, wakes = []\<rparr> (counting_semaphore 0)
      = Returned False \<lparr>now = t, wakes = []\<rparr> (counting_semaphore 0)"
    unfolding try_acquire_until_run [OF ctor] by (simp add: wait counting_semaphore_def)
  have probe: "try_acquire_for L 0 \<lparr>now = t, wakes = ws\<rparr> (counting_semaphore 0)
      = Returned False \<lparr>now = t, wakes = []\<rparr> (counting_semaphore 0)"
    if "clock_rep t" and "ws = [] \<or> ws = [\<lparr>elapsed = e, others = [], waiting = 0\<rparr>]" for ws
    unfolding try_acquire_for_run [OF ctor] using that
    by (simp add: cv_wait_for_pred_def add_ticks_def wait counting_semaphore_def)
  from len fin until probe show ?thesis
    by simp
qed

theorem release_acquire_round_trip_witness:
  "states_after 3
     [(\<lparr>now = 0, wakes = []\<rparr>, Release 1), (\<lparr>now = 1, wakes = []\<rparr>, Release 1),
      (\<lparr>now = 2, wakes = []\<rparr>, Acquire), (\<lparr>now = 3, wakes = []\<rparr>, Acquire)]
     (counting_semaphore 0)
   = [\<lparr>m_count = 1, m_cv = 0, m_lock = False\<rparr>, \<lparr>m_count = 2, m_cv = 0, m_lock = False\<rparr>,
      \<lparr>m_count = 1, m_cv = 0, m_lock = False\<rparr>, \<lparr>m_count = 0, m_cv = 0, m_lock = False\<rparr>] \<and>
   try_acquire_for 3 0 \<lparr>now = 4, wakes = [\<lparr>elapsed = 0, others = [], waiting = 0\<rparr>]\<rparr>
     \<lparr>m_count = 0, m_cv = 0, m_lock = False\<rparr>
   = Returned False \<lparr>now = 4, wakes = []\<rparr> \<lparr>m_count = 0, m_cv = 0, m_lock = False\<rparr>"
proof -
  have run: "states_after 3
     [(\<lparr>now = 0, wakes = []\<rparr>, Release 1), (\<lparr>now = 1, wakes = []\<rparr>, Release 1),
      (\<lparr>now = 2, wakes = []\<rparr>, Acquire), (\<lparr>now = 3, wakes = []\<rparr>, Acquire)]
     (counting_semaphore 0)
   = [\<lparr>m_count = 1, m_cv = 0, m_lock = False\<rparr>, \<lparr>m_count = 2, m_cv = 0, m_lock = False\<rparr>,
      \<lparr>m_count = 1, m_cv = 0, m_lock = False\<rparr>, \<lparr>m_count = 0, m_cv = 0, m_lock = False\<rparr>]"
    by (simp add: run_defs)
  have "length [\<lparr>now = 0, wakes = []\<rparr>, \<lparr>now = 1, wakes = []\<rparr>] = 2"
    and "length [\<lparr>now = 2, wakes = []\<rparr>, \<lparr>now = 3, wakes = []\<rparr>] = 2"
    and "int 2 \<le> 3" and "ptrdiff 3"
    by (simp_all add: ptrdiff_def PTRDIFF_MIN_def PTRDIFF_MAX_def)
  note round_trip = release_acquire_round_trip [OF this, of 4 0]
  have rep: "clock_rep 4"
    by (simp add: clock_rep_def)
  have calls: "map (\<lambda>th. (th, Release 1)) [\<lparr>now = 0, wakes = []\<rparr>, \<lparr>now = 1, wakes = []\<rparr>] @
      map (\<lambda>th. (th, Acquire)) [\<lparr>now = 2, wakes = []\<rparr>, \<lparr>now = 3, wakes = []\<rparr>]
    = [(\<lparr>now = 0, wakes = []\<rparr>, Release 1), (\<lparr>now = 1, wakes = []\<rparr>, Release 1),
       (\<lparr>now = 2, wakes = []\<rparr>, Acquire), (\<lparr>now = 3, wakes = []\<rparr>, Acquire)]"
    by simp
  from round_trip [unfolded calls run]
  have "try_acquire_for 3 0 \<lparr>now = 4, wakes = [\<lparr>elapsed = 0, others = [], waiting = 0\<rparr>]\<rparr>
     \<lparr>m_count = 0, m_cv = 0, m_lock = False\<rparr>
   = Returned False \<lparr>now = 4, wakes = []\<rparr> \<lparr>m_count = 0, m_cv = 0, m_lock = False\<rparr>"
    by (simp add: counting_semaphore_def rep)
  with run show ?thesis
    by simp
qed

end
